theory Spec2Isabelle
  imports Main "HOL-Library.Word"
begin

unbundle bit_operations_syntax

section \<open>Packet-streaming interface (os/packet_stream.h)\<close>

text \<open>
  The development embeds the packet-stream transport of the Genode OS framework:
  the packet descriptor, the descriptor ring buffer shared between source and sink,
  the flow-controlled transmitter, the layout computation of \<open>Packet_stream_base\<close>
  and the packet allocation of \<open>Packet_stream_source\<close>.

  Machine types. \<open>Genode::off_t\<close> is \<open>long\<close> and \<open>Genode::size_t\<close> and
  \<open>Genode::addr_t\<close> are \<open>unsigned long\<close>; they are modelled at the width of a
  64-bit platform as \<open>64 word\<close>, read with \<open>sint\<close> where the C++ type is
  signed and with \<open>unat\<close> where it is unsigned. The queue indices are
  \<open>unsigned\<close>, modelled as \<open>32 word\<close>.
\<close>

type_synonym off_t = "64 word"
type_synonym size_t = "64 word"
type_synonym addr_t = "64 word"
type_synonym unsigned = "32 word"

subsection \<open>Packet descriptor\<close>

record Packet_descriptor =
  offset :: off_t
  size :: size_t

text \<open>The default constructor \<open>Packet_descriptor()\<close>; it is also the value of a
  descriptor slot whose bytes are all zero.\<close>

definition Packet_descriptor_default :: Packet_descriptor where
  "Packet_descriptor_default = \<lparr>offset = 0, size = 0\<rparr>"

subsection \<open>Ring buffer of packet descriptors\<close>

text \<open>
  The template parameter \<open>QUEUE_SIZE\<close> is passed to every operation as its first
  argument. It is an \<open>int\<close> that the usual arithmetic conversions turn into
  \<open>unsigned\<close> in each expression of the class, so it is an \<open>unsigned\<close> here.
  The member \<open>_queue\<close> is a list of \<open>QUEUE_SIZE\<close> descriptors. All indices
  used by the code are reduced modulo \<open>QUEUE_SIZE\<close>, hence in range of the array.
\<close>

record Packet_descriptor_queue =
  head :: unsigned
  tail :: unsigned
  queue :: "Packet_descriptor list"

datatype Role = PRODUCER | CONSUMER

text \<open>The constructor runs on memory shared with the peer: it initialises only the
  members driven by the given role and leaves the others as they are.\<close>

definition Packet_descriptor_queue_ctor ::
  "unsigned \<Rightarrow> Role \<Rightarrow> Packet_descriptor_queue \<Rightarrow> Packet_descriptor_queue" where
  "Packet_descriptor_queue_ctor QUEUE_SIZE role q =
     (if role = PRODUCER
      then q\<lparr>head := 0, queue := replicate (unat QUEUE_SIZE) Packet_descriptor_default\<rparr>
      else q\<lparr>tail := 0\<rparr>)"

definition empty :: "Packet_descriptor_queue \<Rightarrow> bool" where
  "empty q = (tail q = head q)"

definition full :: "unsigned \<Rightarrow> Packet_descriptor_queue \<Rightarrow> bool" where
  "full QUEUE_SIZE q = ((head q + 1) mod QUEUE_SIZE = tail q)"

definition single_element :: "unsigned \<Rightarrow> Packet_descriptor_queue \<Rightarrow> bool" where
  "single_element QUEUE_SIZE q = ((tail q + 1) mod QUEUE_SIZE = head q)"

definition single_slot_free :: "unsigned \<Rightarrow> Packet_descriptor_queue \<Rightarrow> bool" where
  "single_slot_free QUEUE_SIZE q = ((head q + 2) mod QUEUE_SIZE = tail q)"

definition slots_free :: "unsigned \<Rightarrow> Packet_descriptor_queue \<Rightarrow> unsigned" where
  "slots_free QUEUE_SIZE q =
     (if tail q > head q then tail q - head q
      else QUEUE_SIZE - head q + tail q) - 1"

text \<open>\<open>add\<close> returns the success flag together with the queue after the call.\<close>

definition add ::
  "unsigned \<Rightarrow> Packet_descriptor_queue \<Rightarrow> Packet_descriptor \<Rightarrow> bool \<times> Packet_descriptor_queue" where
  "add QUEUE_SIZE q packet =
     (if full QUEUE_SIZE q then (False, q)
      else (True, q\<lparr>queue := (queue q)[unat (head q mod QUEUE_SIZE) := packet],
                     head := (head q + 1) mod QUEUE_SIZE\<rparr>))"

text \<open>\<open>get\<close> returns the descriptor at \<open>tail\<close> and the queue after the call. The
  code does not check for emptiness.\<close>

definition get ::
  "unsigned \<Rightarrow> Packet_descriptor_queue \<Rightarrow> Packet_descriptor \<times> Packet_descriptor_queue" where
  "get QUEUE_SIZE q =
     (queue q ! unat (tail q mod QUEUE_SIZE),
      q\<lparr>tail := (tail q + 1) mod QUEUE_SIZE\<rparr>)"

definition peek :: "unsigned \<Rightarrow> Packet_descriptor_queue \<Rightarrow> Packet_descriptor" where
  "peek QUEUE_SIZE q = queue q ! unat (tail q mod QUEUE_SIZE)"

text \<open>The queue after both parties have constructed their view of the shared block.\<close>

definition queue_init :: "unsigned \<Rightarrow> Packet_descriptor_queue" where
  "queue_init QUEUE_SIZE =
     Packet_descriptor_queue_ctor QUEUE_SIZE CONSUMER
       (Packet_descriptor_queue_ctor QUEUE_SIZE PRODUCER
          \<lparr>head = 0, tail = 0, queue = []\<rparr>)"

subsection \<open>Sequences of queue operations\<close>

datatype queue_op = Add Packet_descriptor | Get

text \<open>\<open>guarded\<close> holds when every \<open>Add\<close> of the sequence is issued while
  \<open>full\<close> is false and every \<open>Get\<close> while \<open>empty\<close> is false. \<open>exec\<close> runs the
  sequence and collects what the \<open>get\<close> calls return, in call order.\<close>

fun guarded :: "unsigned \<Rightarrow> Packet_descriptor_queue \<Rightarrow> queue_op list \<Rightarrow> bool" where
  "guarded N q [] = True"
| "guarded N q (Add p # ops) = (\<not> full N q \<and> guarded N (snd (add N q p)) ops)"
| "guarded N q (Get # ops) = (\<not> empty q \<and> guarded N (snd (get N q)) ops)"

fun exec ::
  "unsigned \<Rightarrow> Packet_descriptor_queue \<Rightarrow> queue_op list
   \<Rightarrow> Packet_descriptor_queue \<times> Packet_descriptor list" where
  "exec N q [] = (q, [])"
| "exec N q (Add p # ops) = exec N (snd (add N q p)) ops"
| "exec N q (Get # ops) =
     (case get N q of (p, q') \<Rightarrow> (case exec N q' ops of (q'', ps) \<Rightarrow> (q'', p # ps)))"

fun added :: "queue_op list \<Rightarrow> Packet_descriptor list" where
  "added [] = []"
| "added (Add p # ops) = p # added ops"
| "added (Get # ops) = added ops"

text \<open>\<open>add_many\<close> calls \<open>add\<close> once for each descriptor of a list and collects the
  flags returned.\<close>

fun add_many ::
  "unsigned \<Rightarrow> Packet_descriptor_queue \<Rightarrow> Packet_descriptor list
   \<Rightarrow> bool list \<times> Packet_descriptor_queue" where
  "add_many N q [] = ([], q)"
| "add_many N q (p # ps) =
     (case add N q p of (ok, q') \<Rightarrow>
        (case add_many N q' ps of (oks, q'') \<Rightarrow> (ok # oks, q'')))"

text \<open>The number of descriptors held, \<open>(head - tail) mod QUEUE_SIZE\<close> over the
  integers, and the descriptors held, oldest first.\<close>

definition fill :: "unsigned \<Rightarrow> Packet_descriptor_queue \<Rightarrow> nat" where
  "fill N q = nat ((uint (head q) - uint (tail q)) mod uint N)"

definition contents :: "unsigned \<Rightarrow> Packet_descriptor_queue \<Rightarrow> Packet_descriptor list" where
  "contents N q =
     map (\<lambda>i. queue q ! ((unat (tail q) + i) mod unat N)) [0..<fill N q]"

text \<open>Both indices are below \<open>QUEUE_SIZE\<close> and the array has \<open>QUEUE_SIZE\<close> slots.\<close>

definition queue_inv :: "unsigned \<Rightarrow> Packet_descriptor_queue \<Rightarrow> bool" where
  "queue_inv N q = (head q < N \<and> tail q < N \<and> length (queue q) = unat N)"

subsection \<open>Transmitter with data-flow control\<close>

text \<open>
  The transmitter owns a pointer to the shared queue, the flag \<open>_tx_wakeup_needed\<close>
  and the signal transmitter \<open>_rx_ready\<close>. The effect of \<open>_rx_ready.submit()\<close> is
  recorded by counting the signals submitted so far. The lock guards serialise the
  threads of the transmitting side only.
\<close>

record Packet_descriptor_transmitter =
  tx_queue :: Packet_descriptor_queue
  tx_wakeup_needed :: bool
  rx_ready_submitted :: nat

definition Packet_descriptor_transmitter_ctor ::
  "Packet_descriptor_queue \<Rightarrow> Packet_descriptor_transmitter" where
  "Packet_descriptor_transmitter_ctor q =
     \<lparr>tx_queue = q, tx_wakeup_needed = False, rx_ready_submitted = 0\<rparr>"

text \<open>
  The peer. The queue lies in memory shared with the receiving side, which runs
  concurrently and is the only writer of the volatile member \<open>_tail\<close>. Each of
  \<open>full()\<close>, \<open>empty()\<close> and \<open>single_element()\<close> reads \<open>_tail\<close> once, so the value
  it sees is the one the peer has written by then. A schedule lists what the peer does
  to \<open>_tail\<close> before each successive read of the transmitter, as a function from the
  old to the new value (\<open>id\<close> when the peer does nothing, \<open>peer_get\<close> when it takes
  one descriptor with \<open>get()\<close>). A schedule that has run out stands for a peer that has
  stopped: it writes nothing any more and sends no signal any more. What the peer
  writes while \<open>add\<close> stores the descriptor and the new \<open>_head\<close> commutes with these
  stores, so it is part of the step before the next read.
\<close>

type_synonym peer_step = "unsigned \<Rightarrow> unsigned"

definition peer_get :: "unsigned \<Rightarrow> peer_step" where
  "peer_get QUEUE_SIZE x = (x + 1) mod QUEUE_SIZE"

definition peer_acts ::
  "peer_step list \<Rightarrow> Packet_descriptor_queue \<Rightarrow> Packet_descriptor_queue \<times> peer_step list" where
  "peer_acts sched q =
     (case sched of [] \<Rightarrow> (q, []) | f # rest \<Rightarrow> (q\<lparr>tail := f (tail q)\<rparr>, rest))"

text \<open>The value of \<open>_tail\<close> after the peer has gone through a list of steps.\<close>

fun peer_tail :: "peer_step list \<Rightarrow> unsigned \<Rightarrow> unsigned" where
  "peer_tail [] x = x"
| "peer_tail (f # fs) x = peer_tail fs (f x)"

text \<open>The peer keeps \<open>_tail\<close> below \<open>QUEUE_SIZE\<close>, as \<open>get()\<close> does.\<close>

definition peer_in_range :: "unsigned \<Rightarrow> peer_step list \<Rightarrow> bool" where
  "peer_in_range N sched = (\<forall>f \<in> set sched. \<forall>x. x < N \<longrightarrow> f x < N)"

definition ready_for_tx ::
  "unsigned \<Rightarrow> Packet_descriptor_transmitter \<Rightarrow> peer_step list \<Rightarrow> bool \<times> peer_step list" where
  "ready_for_tx N t sched =
     (case peer_acts sched (tx_queue t) of (q, s) \<Rightarrow> (\<not> full N q, s))"

text \<open>
  The loop of \<open>tx\<close>. One round reads \<open>_tail\<close> in \<open>full()\<close>, waits for a signal if
  the queue is full, and reads \<open>_tail\<close> again in the \<open>full()\<close> of \<open>add\<close>. The step
  consumed by \<open>wait_for_signal\<close> is what the peer has done by the time the signal
  arrives; when the queue is full and the peer has stopped, the call stays suspended
  forever and the result is \<open>None\<close>. The loop returns the queue after the successful
  \<open>add\<close> and the rest of the schedule.
\<close>

partial_function (option) tx_loop ::
  "unsigned \<Rightarrow> Packet_descriptor_queue \<Rightarrow> Packet_descriptor \<Rightarrow> peer_step list
   \<Rightarrow> (Packet_descriptor_queue \<times> peer_step list) option"
where
  "tx_loop N q packet sched =
     (case (if full N (fst (peer_acts sched q))
            then (case snd (peer_acts sched q) of
                    [] \<Rightarrow> None
                  | f # rest \<Rightarrow>
                      Some ((fst (peer_acts sched q))\<lparr>tail := f (tail (fst (peer_acts sched q)))\<rparr>,
                            rest))
            else Some (peer_acts sched q)) of
        None \<Rightarrow> None
      | Some (q1, sched1) \<Rightarrow>
          (if fst (add N (fst (peer_acts sched1 q1)) packet) = False
           then tx_loop N (snd (add N (fst (peer_acts sched1 q1)) packet)) packet
                  (snd (peer_acts sched1 q1))
           else Some (snd (add N (fst (peer_acts sched1 q1)) packet),
                      snd (peer_acts sched1 q1))))"

declare tx_loop.simps [code]

text \<open>\<open>tx\<close>: after the loop, \<open>single_element()\<close> reads \<open>_tail\<close> once more.\<close>

definition tx ::
  "unsigned \<Rightarrow> Packet_descriptor_transmitter \<Rightarrow> Packet_descriptor \<Rightarrow> peer_step list
   \<Rightarrow> (Packet_descriptor_transmitter \<times> peer_step list) option"
where
  "tx N t packet sched =
     (case tx_loop N (tx_queue t) packet sched of
        None \<Rightarrow> None
      | Some (q, sched1) \<Rightarrow>
          (case peer_acts sched1 q of (q', sched') \<Rightarrow>
             Some (if single_element N q'
                   then t\<lparr>tx_queue := q', rx_ready_submitted := rx_ready_submitted t + 1\<rparr>
                   else t\<lparr>tx_queue := q'\<rparr>, sched')))"

text \<open>
  \<open>try_tx\<close> reads \<open>_tail\<close> in \<open>full()\<close>, in the \<open>full()\<close> of \<open>add\<close> and in
  \<open>single_element()\<close>. It does not look at what \<open>add\<close> returns.
\<close>

definition try_tx ::
  "unsigned \<Rightarrow> Packet_descriptor_transmitter \<Rightarrow> Packet_descriptor \<Rightarrow> peer_step list
   \<Rightarrow> (bool \<times> Packet_descriptor_transmitter) \<times> peer_step list" where
  "try_tx N t packet sched =
     (case peer_acts sched (tx_queue t) of (q1, sched1) \<Rightarrow>
        if full N q1 then ((False, t\<lparr>tx_queue := q1\<rparr>), sched1)
        else (case peer_acts sched1 q1 of (q2, sched2) \<Rightarrow>
                (case peer_acts sched2 (snd (add N q2 packet)) of (q3, sched3) \<Rightarrow>
                   ((True, if single_element N q3
                           then t\<lparr>tx_queue := q3, tx_wakeup_needed := True\<rparr>
                           else t\<lparr>tx_queue := q3\<rparr>), sched3))))"

definition tx_wakeup ::
  "Packet_descriptor_transmitter \<Rightarrow> bool \<times> Packet_descriptor_transmitter" where
  "tx_wakeup t =
     (if tx_wakeup_needed t
      then (True, t\<lparr>rx_ready_submitted := rx_ready_submitted t + 1,
                     tx_wakeup_needed := False\<rparr>)
      else (False, t\<lparr>tx_wakeup_needed := False\<rparr>))"

subsection \<open>Common base of source and sink\<close>

datatype error = Transport_dataspace_too_small | Invalid_packet | Packet_alloc_failed

record Packet_stream_base =
  ds_local_base :: addr_t
  ds_size :: size_t
  submit_queue_offset :: off_t
  ack_queue_offset :: off_t
  bulk_buffer_offset :: off_t
  bulk_buffer_size :: size_t

text \<open>
  Modelled from the spec: \<open>align_addr\<close> (util/misc_math.h) is used by the constructor
  but not part of the sources at hand. The spec places the bulk buffer "at the next
  alignment boundary": the address is rounded up to the next multiple of
  \<open>2 ^ align\<close>, in the arithmetic of the machine word.
\<close>

definition align_addr :: "64 word \<Rightarrow> nat \<Rightarrow> 64 word" where
  "align_addr addr align = (addr + (push_bit align 1 - 1)) AND NOT (push_bit align 1 - 1)"

text \<open>
  The constructor. \<open>local_base\<close> is what \<open>rm.attach\<close> returns and \<open>dataspace_size\<close>
  what \<open>Dataspace_client(_ds_cap).size()\<close> returns. An exception leaves no object:
  the result is \<open>Inl\<close>.
\<close>

definition Packet_stream_base_ctor ::
  "addr_t \<Rightarrow> size_t \<Rightarrow> size_t \<Rightarrow> size_t \<Rightarrow> error + Packet_stream_base" where
  "Packet_stream_base_ctor local_base dataspace_size submit_queue_size ack_queue_size =
     (let sqo = (0 :: off_t);
          aqo = sqo + submit_queue_size;
          bbo = align_addr (aqo + ack_queue_size) 6
      in if bbo \<ge> dataspace_size then Inl Transport_dataspace_too_small
         else Inr \<lparr>ds_local_base = local_base, ds_size = dataspace_size,
                   submit_queue_offset = sqo, ack_queue_offset = aqo,
                   bulk_buffer_offset = bbo,
                   bulk_buffer_size = dataspace_size - bbo\<rparr>)"

text \<open>
  \<open>packet_valid\<close>: the first two comparisons are between \<open>off_t\<close> values and
  therefore signed; in the third, \<open>size_t\<close> operands make both sums and the comparison
  unsigned, and the sums wrap around at the word size.
\<close>

definition packet_valid :: "Packet_stream_base \<Rightarrow> Packet_descriptor \<Rightarrow> bool" where
  "packet_valid b packet =
     (size packet = 0 \<or>
      (sint (offset packet) \<ge> sint (bulk_buffer_offset b)
       \<and> sint (offset packet) < sint (bulk_buffer_offset b + bulk_buffer_size b)
       \<and> offset packet + size packet \<le> bulk_buffer_offset b + bulk_buffer_size b))"

text \<open>\<open>packet_content\<close> takes \<open>sizeof(CONTENT_TYPE)\<close> as \<open>content_size\<close>; the null
  pointer is the address 0.\<close>

definition packet_content ::
  "size_t \<Rightarrow> Packet_stream_base \<Rightarrow> Packet_descriptor \<Rightarrow> error + addr_t" where
  "packet_content content_size b packet =
     (if size packet = 0 then Inr 0
      else if \<not> packet_valid b packet \<or> size packet < content_size then Inl Invalid_packet
      else Inr (ds_local_base b + offset packet))"

definition sizeof_char :: size_t where
  "sizeof_char = 1"

text \<open>
  The byte range \<open>[offset, offset + size)\<close> of a descriptor lies inside the bulk-buffer
  region \<open>[bulk_buffer_offset, bulk_buffer_offset + bulk_buffer_size)\<close>. The bounds are
  computed over the integers, the two \<open>off_t\<close> values read as signed.
\<close>

definition range_contained :: "Packet_stream_base \<Rightarrow> Packet_descriptor \<Rightarrow> bool" where
  "range_contained b packet =
     (sint (bulk_buffer_offset b) \<le> sint (offset packet)
      \<and> sint (offset packet) + uint (size packet)
          \<le> sint (bulk_buffer_offset b) + uint (bulk_buffer_size b))"

text \<open>A layout as the constructor produces it for a dataspace of less than \<open>2 ^ 63\<close>
  bytes: the bulk buffer starts at a nonnegative offset and ends below \<open>2 ^ 63\<close>.\<close>

definition layout_ok :: "Packet_stream_base \<Rightarrow> bool" where
  "layout_ok b =
     (0 \<le> sint (bulk_buffer_offset b)
      \<and> sint (bulk_buffer_offset b) + uint (bulk_buffer_size b) < 2 ^ 63)"

subsection \<open>Bulk-buffer allocator\<close>

text \<open>
  Modelled from the spec: \<open>Genode::Range_allocator\<close> is an interface whose
  implementation is not part of the sources at hand. The spec describes it as the
  allocator that manages the bulk buffer: a request fails when no free range of the
  requested size and alignment exists, a successful request yields a range owned
  exclusively until released, and a release returns the range to the allocator. The
  model keeps the managed range and the list of ranges handed out, as pairs of start
  address and length.
\<close>

record Range_allocator =
  range_base :: nat
  range_size :: nat
  blocks :: "(nat \<times> nat) list"

definition add_range :: "Range_allocator \<Rightarrow> nat \<Rightarrow> nat \<Rightarrow> Range_allocator" where
  "add_range a base n = a\<lparr>range_base := base, range_size := n\<rparr>"

text \<open>
  Modelled from the spec: a range of \<open>n\<close> bytes at \<open>b\<close> is free when it lies inside
  the managed range and meets none of the ranges handed out.
\<close>

definition range_free :: "Range_allocator \<Rightarrow> nat \<Rightarrow> nat \<Rightarrow> bool" where
  "range_free a b n =
     (range_base a \<le> b \<and> b + n \<le> range_base a + range_size a
      \<and> list_all (\<lambda>(b', n'). b + n \<le> b' \<or> b' + n' \<le> b) (blocks a))"

text \<open>
  Modelled from the spec: \<open>alloc_aligned\<close> hands out the lowest free range of \<open>n\<close>
  bytes whose start is a multiple of \<open>2 ^ align\<close>, and reports an error (\<open>None\<close>)
  when there is none.
\<close>

definition alloc_aligned ::
  "Range_allocator \<Rightarrow> nat \<Rightarrow> nat \<Rightarrow> nat option \<times> Range_allocator" where
  "alloc_aligned a n align =
     (case find (\<lambda>b. 2 ^ align dvd b \<and> range_free a b n)
                [range_base a ..< range_base a + range_size a] of
        None \<Rightarrow> (None, a)
      | Some b \<Rightarrow> (Some b, a\<lparr>blocks := (b, n) # blocks a\<rparr>))"

text \<open>Modelled from the spec: \<open>free\<close> returns the range that starts at \<open>addr\<close>.\<close>

definition free :: "Range_allocator \<Rightarrow> nat \<Rightarrow> nat \<Rightarrow> Range_allocator" where
  "free a addr n = a\<lparr>blocks := filter (\<lambda>(b', n'). b' \<noteq> addr) (blocks a)\<rparr>"

subsection \<open>Packet allocation at the source\<close>

text \<open>
  \<open>alloc_packet\<close> and \<open>release_packet\<close> of \<open>Packet_stream_source\<close>, with the
  allocator \<open>_packet_alloc\<close> passed in and returned. The pointer \<open>base\<close> starts as 0;
  the conjunction \<open>size && ...\<close> calls the allocator only for a nonzero size. The
  alignment is the binary logarithm handed to the allocator.
\<close>

definition alloc_packet ::
  "Range_allocator \<Rightarrow> size_t \<Rightarrow> nat \<Rightarrow> (error + Packet_descriptor) \<times> Range_allocator" where
  "alloc_packet a sz align =
     (if sz \<noteq> 0
      then (case alloc_aligned a (unat sz) align of
              (None, a') \<Rightarrow> (Inl Packet_alloc_failed, a')
            | (Some base, a') \<Rightarrow> (Inr \<lparr>offset = word_of_nat base, size = sz\<rparr>, a'))
      else (Inr \<lparr>offset = 0, size = sz\<rparr>, a))"

definition release_packet :: "Range_allocator \<Rightarrow> Packet_descriptor \<Rightarrow> Range_allocator" where
  "release_packet a packet =
     (if size packet \<noteq> 0 then free a (unat (offset packet)) (unat (size packet)) else a)"

text \<open>
  \<open>allocated a d\<close>: the allocator has the byte range of the descriptor handed out.
  \<open>owned a0 a d\<close>: the allocator state \<open>a\<close> manages the same range as \<open>a0\<close> and has
  the range of \<open>d\<close> handed out. \<open>disjoint\<close>: two descriptors name byte ranges that do
  not meet.
\<close>

definition allocated :: "Range_allocator \<Rightarrow> Packet_descriptor \<Rightarrow> bool" where
  "allocated a d = ((unat (offset d), unat (size d)) \<in> set (blocks a))"

definition owned :: "Range_allocator \<Rightarrow> Range_allocator \<Rightarrow> Packet_descriptor \<Rightarrow> bool" where
  "owned a0 a d =
     (range_base a = range_base a0 \<and> range_size a = range_size a0 \<and> allocated a d)"

definition disjoint :: "Packet_descriptor \<Rightarrow> Packet_descriptor \<Rightarrow> bool" where
  "disjoint d d' =
     (unat (offset d) + unat (size d) \<le> unat (offset d')
      \<or> unat (offset d') + unat (size d') \<le> unat (offset d))"

section \<open>The descriptor queue\<close>

subsection \<open>Indices as natural numbers\<close>

text \<open>
  Under \<open>queue_inv\<close> no index computation of the queue wraps around at the word
  size, so each can be read over the natural numbers.
\<close>

lemma mod_wrap:
  fixes a n :: nat
  assumes "a < 2 * n"
  shows "a mod n = (if a < n then a else a - n)"
proof (cases "a < n")
  case True
  then show ?thesis by simp
next
  case False
  then have "a mod n = (a - n) mod n" by (simp add: le_mod_geq)
  moreover have "a - n < n" using assms False by linarith
  ultimately show ?thesis using False by simp
qed

lemma diff_mod_nat:
  fixes h t n :: nat
  assumes "h < n" "t < n"
  shows "nat ((int h - int t) mod int n) = (if t \<le> h then h - t else h + n - t)"
proof (cases "t \<le> h")
  case True
  have "0 \<le> int h - int t" "int h - int t < int n" using True assms by linarith+
  then have "(int h - int t) mod int n = int h - int t" by (rule mod_pos_pos_trivial)
  then show ?thesis using True by simp
next
  case False
  have "(int h - int t) mod int n = (int h - int t + int n) mod int n" by simp
  moreover have "0 \<le> int h - int t + int n" "int h - int t + int n < int n"
    using False assms by linarith+
  then have "(int h - int t + int n) mod int n = int h - int t + int n"
    by (rule mod_pos_pos_trivial)
  ultimately have "(int h - int t) mod int n = int h - int t + int n" by simp
  then show ?thesis using False assms by simp
qed

lemma inv_nat:
  assumes "queue_inv N q"
  shows "unat (head q) < unat N" "unat (tail q) < unat N" "length (queue q) = unat N" "0 < unat N"
  using assms by (auto simp: queue_inv_def word_less_nat_alt)

lemma inv_pos:
  assumes "queue_inv N q"
  shows "0 < N"
proof -
  have "0 < unat N" using inv_nat(4) [OF assms] .
  then have "N \<noteq> 0" by auto
  then show ?thesis by (simp add: word_neq_0_conv)
qed

lemma unat_inc_mod:
  fixes h N :: "32 word"
  assumes "h < N"
  shows "unat ((h + 1) mod N) = (if unat h + 1 = unat N then 0 else unat h + 1)"
proof -
  have lt: "unat h < unat N" using assms by (simp add: word_less_nat_alt)
  have "unat N < 2 ^ 32" using unsigned_less [of N] by simp
  with lt have "unat (h + 1) = unat h + 1"
    by (simp add: unat_word_ariths)
  then show ?thesis using lt by (simp add: unat_mod)
qed

lemma unat_inc_mod_eq:
  fixes h N :: "32 word"
  assumes "h < N"
  shows "unat ((h + 1) mod N) = (unat h + 1) mod unat N"
proof -
  have "unat h < unat N" using assms by (simp add: word_less_nat_alt)
  then show ?thesis unfolding unat_inc_mod [OF assms] by (simp add: mod_wrap)
qed

lemma unat_mod_id:
  fixes h N :: "32 word"
  assumes "h < N"
  shows "unat (h mod N) = unat h"
  using assms by (simp add: mod_word_less)

lemma unat_add2_mod:
  fixes h N :: "32 word"
  assumes "h < N" "N < 2 ^ 31"
  shows "unat ((h + 2) mod N) = (unat h + 2) mod unat N"
proof -
  have lt: "unat h < unat N" using assms(1) by (simp add: word_less_nat_alt)
  have "unat N < 2 ^ 31" using assms(2) by (simp add: word_less_nat_alt)
  with lt have "unat (h + 2) = unat h + 2"
    by (simp add: unat_word_ariths)
  then show ?thesis by (simp add: unat_mod)
qed

lemma fill_nat:
  assumes "queue_inv N q"
  shows "fill N q = (if unat (tail q) \<le> unat (head q) then unat (head q) - unat (tail q)
                     else unat (head q) + unat N - unat (tail q))"
  unfolding fill_def using diff_mod_nat [OF inv_nat(1,2) [OF assms]]
  by simp

lemma fill_less:
  assumes "queue_inv N q"
  shows "fill N q < unat N"
  unfolding fill_nat [OF assms] using inv_nat(1,2) [OF assms] by (simp split: if_splits; linarith)

subsection \<open>The predicates in terms of the fill level\<close>

lemma full_unat:
  assumes "queue_inv N q"
  shows "full N q \<longleftrightarrow>
    (if unat (head q) + 1 = unat N then 0 else unat (head q) + 1) = unat (tail q)"
proof -
  have "head q < N" using assms by (simp add: queue_inv_def)
  from unat_inc_mod [OF this] show ?thesis
    unfolding full_def by (metis word_unat_eq_iff)
qed

lemma full_nat:
  assumes "queue_inv N q"
  shows "full N q \<longleftrightarrow> fill N q = unat N - 1"
proof -
  note n = inv_nat [OF assms]
  show ?thesis
    unfolding full_unat [OF assms] fill_nat [OF assms] using n(1,2) by (simp split: if_splits) linarith
qed

lemma empty_nat:
  assumes "queue_inv N q"
  shows "empty q \<longleftrightarrow> fill N q = 0"
proof -
  note n = inv_nat [OF assms]
  have "empty q \<longleftrightarrow> unat (tail q) = unat (head q)"
    unfolding empty_def by (metis word_unat_eq_iff)
  then show ?thesis
    unfolding fill_nat [OF assms] using n(1,2) by (simp split: if_splits) linarith
qed

lemma single_element_nat:
  assumes "queue_inv N q" "2 \<le> unat N"
  shows "single_element N q \<longleftrightarrow> fill N q = 1"
proof -
  note n = inv_nat [OF assms(1)]
  have t: "tail q < N" using assms(1) by (simp add: queue_inv_def)
  have "single_element N q
      \<longleftrightarrow> (if unat (tail q) + 1 = unat N then 0 else unat (tail q) + 1) = unat (head q)"
    using unat_inc_mod [OF t] unfolding single_element_def by (metis word_unat_eq_iff)
  then show ?thesis
    unfolding fill_nat [OF assms(1)] using n(1,2) assms(2) by (simp split: if_splits; linarith)
qed

lemma single_slot_free_nat:
  assumes "queue_inv N q" "2 \<le> unat N" "N < 2 ^ 31"
  shows "single_slot_free N q \<longleftrightarrow> fill N q = unat N - 2"
proof -
  note n = inv_nat [OF assms(1)]
  have h: "head q < N" using assms(1) by (simp add: queue_inv_def)
  have "unat (head q) + 2 < 2 * unat N \<or> unat (head q) + 2 = 2 * unat N"
    using n(1) assms(2) by linarith
  then have m: "(unat (head q) + 2) mod unat N
      = (if unat (head q) + 2 < unat N then unat (head q) + 2 else unat (head q) + 2 - unat N)"
    using mod_wrap [of "unat (head q) + 2" "unat N"] n(1) assms(2) by auto
  have "single_slot_free N q \<longleftrightarrow> (unat (head q) + 2) mod unat N = unat (tail q)"
    using unat_add2_mod [OF h assms(3)] unfolding single_slot_free_def
    by (metis word_unat_eq_iff)
  then show ?thesis
    unfolding m fill_nat [OF assms(1)] using n(1,2) assms(2) by (simp split: if_splits; linarith)
qed

lemma slots_free_nat:
  assumes "queue_inv N q"
  shows "unat (slots_free N q) = unat N - 1 - fill N q"
proof -
  note n = inv_nat [OF assms]
  have hN: "head q \<le> N" using n(1) by (simp add: word_le_nat_alt)
  show ?thesis
  proof (cases "tail q > head q")
    case True
    then have lt: "unat (head q) < unat (tail q)" by (simp add: word_less_nat_alt)
    have d: "unat (tail q - head q) = unat (tail q) - unat (head q)"
      using True by (simp add: unat_sub)
    then have "tail q - head q \<noteq> 0" using lt by (metis unat_0 zero_less_diff less_irrefl)
    then have "unat (tail q - head q - 1) = unat (tail q) - unat (head q) - 1"
      using d by (simp add: unat_minus_one)
    then show ?thesis
      unfolding slots_free_def fill_nat [OF assms] using True lt n(1,2) by simp
  next
    case False
    then have le: "unat (tail q) \<le> unat (head q)" by (simp add: word_less_nat_alt)
    have d: "unat (N - head q) = unat N - unat (head q)"
      using hN by (simp add: unat_sub)
    have "unat N < 2 ^ 32" using unsigned_less [of N] by simp
    then have s: "unat (N - head q + tail q) = unat N - unat (head q) + unat (tail q)"
      using d le n(1) by (simp add: unat_word_ariths)
    then have "N - head q + tail q \<noteq> 0" using n(1) by (metis unat_0 add_is_0 zero_less_diff less_irrefl)
    then have "unat (N - head q + tail q - 1) = unat N - unat (head q) + unat (tail q) - 1"
      using s by (simp add: unat_minus_one)
    then show ?thesis
      unfolding slots_free_def fill_nat [OF assms] using False le n(1,2) by simp
  qed
qed

subsection \<open>Effect of add and get\<close>

lemma add_inv:
  assumes "queue_inv N q"
  shows "queue_inv N (snd (add N q p))"
proof -
  have "(head q + 1) mod N < N" using inv_pos [OF assms] by (simp add: word_mod_less_divisor)
  then show ?thesis using assms by (simp add: add_def queue_inv_def)
qed

lemma get_inv:
  assumes "queue_inv N q"
  shows "queue_inv N (snd (get N q))"
proof -
  have "(tail q + 1) mod N < N" using inv_pos [OF assms] by (simp add: word_mod_less_divisor)
  then show ?thesis using assms by (simp add: get_def queue_inv_def)
qed

text \<open>Whatever the shared block holds before, and whichever party constructs its view
  first, the two constructors leave the queue in the state \<open>queue_init\<close>.\<close>

lemma queue_init_roles:
  "Packet_descriptor_queue_ctor N CONSUMER (Packet_descriptor_queue_ctor N PRODUCER m)
     = queue_init N"
  "Packet_descriptor_queue_ctor N PRODUCER (Packet_descriptor_queue_ctor N CONSUMER m)
     = queue_init N"
  by (simp_all add: Packet_descriptor_queue_ctor_def queue_init_def)

lemma init_inv:
  assumes "0 < N"
  shows "queue_inv N (queue_init N)"
  using assms by (simp add: queue_inv_def queue_init_def Packet_descriptor_queue_ctor_def)

lemma init_contents: "contents N (queue_init N) = []"
  by (simp add: contents_def fill_def queue_init_def Packet_descriptor_queue_ctor_def)

lemma init_fill: "fill N (queue_init N) = 0"
  by (simp add: fill_def queue_init_def Packet_descriptor_queue_ctor_def)

lemma idx_fill:
  assumes "queue_inv N q"
  shows "(unat (tail q) + fill N q) mod unat N = unat (head q)"
proof -
  note n = inv_nat(1,2) [OF assms]
  have "unat (tail q) + fill N q < 2 * unat N" using n(2) fill_less [OF assms] by linarith
  from mod_wrap [OF this] show ?thesis
    unfolding fill_nat [OF assms] using n by (simp split: if_splits; linarith)
qed

lemma idx_below_fill:
  assumes "queue_inv N q" "i < fill N q"
  shows "(unat (tail q) + i) mod unat N \<noteq> unat (head q)"
proof -
  note n = inv_nat(1,2) [OF assms(1)]
  have "unat (tail q) + i < 2 * unat N"
    using n(2) fill_less [OF assms(1)] assms(2) by linarith
  from mod_wrap [OF this] show ?thesis
    using assms(2) unfolding fill_nat [OF assms(1)] using n
    by (simp split: if_splits; linarith)
qed

lemma add_fill:
  assumes "queue_inv N q" "\<not> full N q"
  shows "fill N (snd (add N q p)) = fill N q + 1"
proof -
  note n = inv_nat [OF assms(1)]
  have h: "head q < N" using assms(1) by (simp add: queue_inv_def)
  let ?q = "snd (add N q p)"
  have hd: "unat (head ?q) = (if unat (head q) + 1 = unat N then 0 else unat (head q) + 1)"
    and tl: "tail ?q = tail q"
    using assms(2) unat_inc_mod [OF h] by (simp_all add: add_def)
  have nf: "(if unat (head q) + 1 = unat N then 0 else unat (head q) + 1) \<noteq> unat (tail q)"
    using assms(2) full_unat [OF assms(1)] by simp
  show ?thesis
    unfolding fill_nat [OF add_inv [OF assms(1)]] fill_nat [OF assms(1)] hd tl
    using n(1,2) nf by (simp split: if_splits; linarith)
qed

lemma add_contents:
  assumes "queue_inv N q" "\<not> full N q"
  shows "contents N (snd (add N q p)) = contents N q @ [p]"
proof -
  note n = inv_nat [OF assms(1)]
  have h: "head q < N" using assms(1) by (simp add: queue_inv_def)
  let ?q = "snd (add N q p)"
  let ?h = "unat (head q)"
  have qu: "queue ?q = (queue q)[?h := p]" and tl: "tail ?q = tail q"
    using assms(2) unat_mod_id [OF h] by (simp_all add: add_def)
  have old: "(queue q)[?h := p] ! ((unat (tail q) + i) mod unat N)
      = queue q ! ((unat (tail q) + i) mod unat N)" if "i < fill N q" for i
    using idx_below_fill [OF assms(1) that] by simp
  have new: "(queue q)[?h := p] ! ((unat (tail q) + fill N q) mod unat N) = p"
    unfolding idx_fill [OF assms(1)] using n(1,3) by simp
  have "contents N ?q
      = map (\<lambda>i. (queue q)[?h := p] ! ((unat (tail q) + i) mod unat N)) [0..<fill N q]
        @ [(queue q)[?h := p] ! ((unat (tail q) + fill N q) mod unat N)]"
    unfolding contents_def add_fill [OF assms] qu tl by simp
  also have "\<dots> = contents N q @ [p]"
    unfolding contents_def new using old by simp
  finally show ?thesis .
qed

lemma get_fill:
  assumes "queue_inv N q" "\<not> empty q"
  shows "fill N q = Suc (fill N (snd (get N q)))"
proof -
  note n = inv_nat [OF assms(1)]
  have t: "tail q < N" using assms(1) by (simp add: queue_inv_def)
  let ?q = "snd (get N q)"
  have tl: "unat (tail ?q) = (if unat (tail q) + 1 = unat N then 0 else unat (tail q) + 1)"
    and hd: "head ?q = head q"
    using unat_inc_mod [OF t] by (simp_all add: get_def)
  have ne: "unat (tail q) \<noteq> unat (head q)"
    using assms(2) unfolding empty_def by (metis word_unat_eq_iff)
  show ?thesis
    unfolding fill_nat [OF get_inv [OF assms(1)]] fill_nat [OF assms(1)] hd tl
    using n(1,2) ne by (simp split: if_splits; linarith)
qed

lemma get_contents:
  assumes "queue_inv N q" "\<not> empty q"
  shows "contents N q = fst (get N q) # contents N (snd (get N q))"
proof -
  note n = inv_nat [OF assms(1)]
  have t: "tail q < N" using assms(1) by (simp add: queue_inv_def)
  let ?q = "snd (get N q)"
  let ?t = "unat (tail q)"
  have qu: "queue ?q = queue q" and tl: "unat (tail ?q) = (?t + 1) mod unat N"
    using unat_inc_mod_eq [OF t] by (simp_all add: get_def)
  have first: "fst (get N q) = queue q ! (?t mod unat N)"
    using unat_mod_id [OF t] n(2) by (simp add: get_def)
  have shift: "((?t + 1) mod unat N + i) mod unat N = (?t + Suc i) mod unat N" for i
    by (simp add: mod_add_left_eq)
  have "contents N q
      = map (\<lambda>i. queue q ! ((?t + i) mod unat N)) [0..<Suc (fill N ?q)]"
    unfolding contents_def get_fill [OF assms] ..
  also have "\<dots> = queue q ! (?t mod unat N)
      # map (\<lambda>i. queue q ! ((?t + Suc i) mod unat N)) [0..<fill N ?q]"
    unfolding map_upt_Suc by simp
  also have "\<dots> = fst (get N q) # contents N ?q"
    unfolding contents_def qu tl shift first ..
  finally show ?thesis .
qed

lemma exec_inv:
  assumes "queue_inv N q"
  shows "queue_inv N (fst (exec N q ops))"
  using assms
proof (induction ops arbitrary: q)
  case Nil
  then show ?case by simp
next
  case (Cons op ops)
  show ?case
  proof (cases op)
    case (Add p)
    then show ?thesis using Cons.IH [OF add_inv [OF Cons.prems]] by simp
  next
    case Get
    then show ?thesis using Cons.IH [OF get_inv [OF Cons.prems]] by (simp add: case_prod_beta)
  qed
qed

lemma exec_contents:
  assumes "queue_inv N q" "guarded N q ops"
  shows "queue_inv N (fst (exec N q ops))
     \<and> contents N q @ added ops = snd (exec N q ops) @ contents N (fst (exec N q ops))"
  using assms
proof (induction ops arbitrary: q)
  case Nil
  then show ?case by simp
next
  case (Cons op ops)
  show ?case
  proof (cases op)
    case (Add p)
    with Cons.prems have nf: "\<not> full N q" and g: "guarded N (snd (add N q p)) ops" by simp_all
    from Cons.IH [OF add_inv [OF Cons.prems(1)] g] add_contents [OF Cons.prems(1) nf]
    show ?thesis using Add by simp
  next
    case Get
    with Cons.prems have ne: "\<not> empty q" and g: "guarded N (snd (get N q)) ops" by simp_all
    from Cons.IH [OF get_inv [OF Cons.prems(1)] g] get_contents [OF Cons.prems(1) ne]
    show ?thesis using Get by (simp add: case_prod_beta)
  qed
qed

lemma drain:
  assumes "queue_inv N q" "fill N q = k"
  shows "guarded N q (replicate k Get) \<and> snd (exec N q (replicate k Get)) = contents N q"
  using assms
proof (induction k arbitrary: q)
  case 0
  then show ?case by (simp add: contents_def)
next
  case (Suc k)
  from Suc.prems have ne: "\<not> empty q" using empty_nat [OF Suc.prems(1)] by simp
  have "fill N (snd (get N q)) = k" using get_fill [OF Suc.prems(1) ne] Suc.prems(2) by simp
  from Suc.IH [OF get_inv [OF Suc.prems(1)] this] get_contents [OF Suc.prems(1) ne] ne
  show ?case by (simp add: case_prod_beta)
qed

lemma add_many_fill:
  assumes "queue_inv N q" "fill N q + length ps \<le> unat N - 1"
  shows "fst (add_many N q ps) = replicate (length ps) True
     \<and> queue_inv N (snd (add_many N q ps))
     \<and> fill N (snd (add_many N q ps)) = fill N q + length ps"
  using assms
proof (induction ps arbitrary: q)
  case Nil
  then show ?case by simp
next
  case (Cons p ps)
  have nf: "\<not> full N q" using Cons.prems full_nat [OF Cons.prems(1)] by simp
  then have ok: "fst (add N q p) = True" by (simp add: add_def)
  have f: "fill N (snd (add N q p)) = fill N q + 1" using add_fill [OF Cons.prems(1) nf] .
  with Cons.prems(2) have "fill N (snd (add N q p)) + length ps \<le> unat N - 1" by simp
  from Cons.IH [OF add_inv [OF Cons.prems(1)] this] ok f
  show ?case by (simp add: case_prod_beta)
qed

lemma add_many_append:
  "add_many N q (ps @ rs) =
     (fst (add_many N q ps) @ fst (add_many N (snd (add_many N q ps)) rs),
      snd (add_many N (snd (add_many N q ps)) rs))"
  by (induction ps arbitrary: q) (simp_all add: case_prod_beta)

subsection \<open>FIFO law\<close>

text \<open>
  Claim C1. Take any sequence of \<open>add\<close> and \<open>get\<close> calls on the queue set up by
  both parties, in which each \<open>add\<close> is issued while \<open>full()\<close> is false and each
  \<open>get\<close> while \<open>empty()\<close> is false. Then the descriptors returned by the \<open>get\<close>
  calls, in call order, are an initial segment of the descriptors added, in the order of
  their \<open>add\<close> calls; and the descriptors added but not yet returned are still in the
  queue: that many further \<open>get\<close> calls are permitted and return exactly them, in
  order. So every descriptor comes out once, none is lost, none is duplicated.
\<close>

theorem queue_fifo:
  assumes "0 < N" and "guarded N (queue_init N) ops"
  shows "\<exists>rest. added ops = snd (exec N (queue_init N) ops) @ rest
           \<and> guarded N (fst (exec N (queue_init N) ops)) (replicate (length rest) Get)
           \<and> snd (exec N (fst (exec N (queue_init N) ops)) (replicate (length rest) Get)) = rest"
proof -
  let ?q = "fst (exec N (queue_init N) ops)"
  from exec_contents [OF init_inv [OF assms(1)] assms(2)]
  have inv: "queue_inv N ?q"
    and eq: "added ops = snd (exec N (queue_init N) ops) @ contents N ?q"
    by (simp_all add: init_contents)
  have len: "length (contents N ?q) = fill N ?q" by (simp add: contents_def)
  from drain [OF inv refl] show ?thesis using eq len by metis
qed

theorem queue_fifo_witness:
  "0 < (4 :: unsigned)
   \<and> guarded 4 (queue_init 4)
        [Add \<lparr>offset = 64, size = 8\<rparr>, Get, Add \<lparr>offset = 128, size = 8\<rparr>,
         Add \<lparr>offset = 192, size = 8\<rparr>, Get]
   \<and> snd (exec 4 (queue_init 4)
        [Add \<lparr>offset = 64, size = 8\<rparr>, Get, Add \<lparr>offset = 128, size = 8\<rparr>,
         Add \<lparr>offset = 192, size = 8\<rparr>, Get])
       = [\<lparr>offset = 64, size = 8\<rparr>, \<lparr>offset = 128, size = 8\<rparr>]
   \<and> (\<exists>rest.
        added [Add \<lparr>offset = 64, size = 8\<rparr>, Get, Add \<lparr>offset = 128, size = 8\<rparr>,
               Add \<lparr>offset = 192, size = 8\<rparr>, Get]
        = snd (exec 4 (queue_init 4)
            [Add \<lparr>offset = 64, size = 8\<rparr>, Get, Add \<lparr>offset = 128, size = 8\<rparr>,
             Add \<lparr>offset = 192, size = 8\<rparr>, Get]) @ rest
        \<and> guarded 4 (fst (exec 4 (queue_init 4)
            [Add \<lparr>offset = 64, size = 8\<rparr>, Get, Add \<lparr>offset = 128, size = 8\<rparr>,
             Add \<lparr>offset = 192, size = 8\<rparr>, Get])) (replicate (length rest) Get)
        \<and> snd (exec 4 (fst (exec 4 (queue_init 4)
            [Add \<lparr>offset = 64, size = 8\<rparr>, Get, Add \<lparr>offset = 128, size = 8\<rparr>,
             Add \<lparr>offset = 192, size = 8\<rparr>, Get])) (replicate (length rest) Get)) = rest)"
proof -
  let ?ops = "[Add \<lparr>offset = 64, size = 8\<rparr>, Get, Add \<lparr>offset = 128, size = 8\<rparr>,
         Add \<lparr>offset = 192, size = 8\<rparr>, Get]"
  have pos: "0 < (4 :: unsigned)" by simp
  have g: "guarded 4 (queue_init 4) ?ops"
    by (simp add: queue_init_def Packet_descriptor_queue_ctor_def full_def empty_def add_def get_def)
  have e: "snd (exec 4 (queue_init 4) ?ops) = [\<lparr>offset = 64, size = 8\<rparr>, \<lparr>offset = 128, size = 8\<rparr>]"
    by (simp add: queue_init_def Packet_descriptor_queue_ctor_def full_def empty_def add_def get_def)
  from queue_fifo [OF pos g] pos g e show ?thesis by blast
qed

subsection \<open>Capacity\<close>

text \<open>
  Claim C2. Whenever \<open>full()\<close> holds, \<open>add\<close> returns false and the queue (head, tail
  and storage) is what it was. Starting from the empty queue of capacity \<open>N\<close>, the first
  \<open>N - 1\<close> calls of \<open>add\<close> return true and the \<open>N\<close>-th returns false, leaving the
  queue as the \<open>N - 1\<close> calls left it; once one descriptor has been taken out by
  \<open>get\<close>, \<open>add\<close> succeeds again.
\<close>

theorem add_capacity:
  assumes "0 < N" and "length ps = unat N - 1"
  shows "(full N q \<longrightarrow> add N q p = (False, q))
     \<and> add_many N (queue_init N) (ps @ [p])
         = (replicate (unat N - 1) True @ [False], snd (add_many N (queue_init N) ps))
     \<and> (2 \<le> unat N \<longrightarrow>
          fst (add N (snd (get N (snd (add_many N (queue_init N) ps)))) p) = True)"
proof -
  let ?q = "snd (add_many N (queue_init N) ps)"
  have a: "full N q \<longrightarrow> add N q p = (False, q)" by (simp add: add_def)
  from add_many_fill [OF init_inv [OF assms(1)], of ps] assms(2)
  have oks: "fst (add_many N (queue_init N) ps) = replicate (unat N - 1) True"
    and inv: "queue_inv N ?q" and f: "fill N ?q = unat N - 1"
    by (simp_all add: init_fill)
  have fl: "full N ?q" using full_nat [OF inv] f by simp
  have b: "add_many N (queue_init N) (ps @ [p])
         = (replicate (unat N - 1) True @ [False], ?q)"
    unfolding add_many_append using oks fl by (simp add: add_def)
  have c: "fst (add N (snd (get N ?q)) p) = True" if "2 \<le> unat N"
  proof -
    have ne: "\<not> empty ?q" using empty_nat [OF inv] f that by simp
    have "fill N (snd (get N ?q)) \<noteq> unat N - 1" using get_fill [OF inv ne] f by simp
    then have "\<not> full N (snd (get N ?q))" using full_nat [OF get_inv [OF inv]] by simp
    then show ?thesis by (simp add: add_def)
  qed
  from a b c show ?thesis by blast
qed

theorem add_capacity_witness:
  "0 < (3 :: unsigned)
   \<and> length [\<lparr>offset = 64, size = 8\<rparr>, \<lparr>offset = 128, size = 8\<rparr>] = unat (3 :: unsigned) - 1
   \<and> 2 \<le> unat (3 :: unsigned)
   \<and> add_many 3 (queue_init 3)
        ([\<lparr>offset = 64, size = 8\<rparr>, \<lparr>offset = 128, size = 8\<rparr>] @ [\<lparr>offset = 192, size = 8\<rparr>])
      = (replicate (unat (3 :: unsigned) - 1) True @ [False],
         snd (add_many 3 (queue_init 3) [\<lparr>offset = 64, size = 8\<rparr>, \<lparr>offset = 128, size = 8\<rparr>]))
   \<and> fst (add 3 (snd (get 3 (snd (add_many 3 (queue_init 3)
        [\<lparr>offset = 64, size = 8\<rparr>, \<lparr>offset = 128, size = 8\<rparr>])))) \<lparr>offset = 192, size = 8\<rparr>) = True"
proof -
  have pos: "0 < (3 :: unsigned)" by simp
  have len: "length [\<lparr>offset = 64, size = 8\<rparr>, \<lparr>offset = 128, size = 8\<rparr>] = unat (3 :: unsigned) - 1"
    by simp
  have two: "2 \<le> unat (3 :: unsigned)" by simp
  from add_capacity [OF pos len, of _ "\<lparr>offset = 192, size = 8\<rparr>"] pos len two
  show ?thesis by blast
qed

subsection \<open>State predicates\<close>

text \<open>
  Claim C7, amended. Let \<open>q\<close> be a state reached from the initial queue by any calls of
  \<open>add\<close> and \<open>get\<close>, for a \<open>QUEUE_SIZE\<close> \<open>N\<close> that is a positive \<open>int\<close>, and let
  \<open>k = (head - tail) mod N\<close>, computed over the integers. Then \<open>k \<le> N - 1\<close>,
  \<open>empty()\<close> is true iff \<open>k = 0\<close>, \<open>full()\<close> is true iff \<open>k = N - 1\<close> and
  \<open>slots_free()\<close> returns \<open>N - 1 - k\<close>; and, provided \<open>N \<ge> 2\<close>,
  \<open>single_element()\<close> is true iff \<open>k = 1\<close> and \<open>single_slot_free()\<close> is true iff
  \<open>k = N - 2\<close>.
\<close>

theorem queue_predicates:
  assumes "0 < N" and "N < 2 ^ 31" and "q = fst (exec N (queue_init N) ops)"
  shows "fill N q \<le> unat N - 1
     \<and> (empty q \<longleftrightarrow> fill N q = 0)
     \<and> (full N q \<longleftrightarrow> fill N q = unat N - 1)
     \<and> unat (slots_free N q) = unat N - 1 - fill N q
     \<and> (2 \<le> unat N \<longrightarrow>
          (single_element N q \<longleftrightarrow> fill N q = 1)
          \<and> (single_slot_free N q \<longleftrightarrow> fill N q = unat N - 2))"
proof -
  have inv: "queue_inv N q"
    unfolding assms(3) using exec_inv [OF init_inv [OF assms(1)]] .
  have "fill N q \<le> unat N - 1" using fill_less [OF inv] by simp
  moreover note empty_nat [OF inv] full_nat [OF inv] slots_free_nat [OF inv]
  moreover have "single_element N q \<longleftrightarrow> fill N q = 1" if "2 \<le> unat N"
    using single_element_nat [OF inv that] .
  moreover have "single_slot_free N q \<longleftrightarrow> fill N q = unat N - 2" if "2 \<le> unat N"
    using single_slot_free_nat [OF inv that assms(2)] .
  ultimately show ?thesis by blast
qed

theorem queue_predicates_witness:
  "0 < (4 :: unsigned) \<and> (4 :: unsigned) < 2 ^ 31 \<and> 2 \<le> unat (4 :: unsigned)
   \<and> fill 4 (fst (exec 4 (queue_init 4) [Add \<lparr>offset = 64, size = 8\<rparr>])) = 1
   \<and> single_element 4 (fst (exec 4 (queue_init 4) [Add \<lparr>offset = 64, size = 8\<rparr>]))
   \<and> \<not> empty (fst (exec 4 (queue_init 4) [Add \<lparr>offset = 64, size = 8\<rparr>]))
   \<and> \<not> full 4 (fst (exec 4 (queue_init 4) [Add \<lparr>offset = 64, size = 8\<rparr>]))
   \<and> \<not> single_slot_free 4 (fst (exec 4 (queue_init 4) [Add \<lparr>offset = 64, size = 8\<rparr>]))
   \<and> unat (slots_free 4 (fst (exec 4 (queue_init 4) [Add \<lparr>offset = 64, size = 8\<rparr>]))) = 2"
proof -
  have f: "fill 4 (fst (exec 4 (queue_init 4) [Add \<lparr>offset = 64, size = 8\<rparr>])) = 1"
    by (simp add: fill_def queue_init_def Packet_descriptor_queue_ctor_def full_def add_def)
  from queue_predicates [of 4 _ "[Add \<lparr>offset = 64, size = 8\<rparr>]", OF _ _ refl] f
  show ?thesis by simp
qed

text \<open>
  The claim as stated, for every capacity, fails for \<open>N = 1\<close>: the only state has
  \<open>head = tail = 0\<close>, hence \<open>k = 0\<close>, and \<open>single_element()\<close> compares
  \<open>(0 + 1) % 1\<close> with 0 and returns true.
\<close>

theorem single_element_counterexample:
  "\<not> (single_element 1 (fst (exec 1 (queue_init 1) []))
       \<longleftrightarrow> fill 1 (fst (exec 1 (queue_init 1) [])) = 1)"
  by (simp add: single_element_def fill_def queue_init_def Packet_descriptor_queue_ctor_def)

section \<open>The transmitter\<close>

subsection \<open>The peer\<close>

lemma peer_tail_append: "peer_tail (xs @ ys) x = peer_tail ys (peer_tail xs x)"
  by (induction xs arbitrary: x) simp_all

lemma peer_acts_eq:
  "peer_acts sched q = (q\<lparr>tail := peer_tail (take 1 sched) (tail q)\<rparr>, drop 1 sched)"
  by (cases sched) (simp_all add: peer_acts_def)

lemma peer_tail_take_Suc:
  "peer_tail (take 1 (drop k s)) (peer_tail (take k s) x) = peer_tail (take (Suc k) s) x"
proof -
  have "take (Suc k) s = take k s @ take 1 (drop k s)" using take_add [of k 1 s] by simp
  then show ?thesis by (simp only: peer_tail_append)
qed

lemma peer_step_twice:
  "(q\<lparr>tail := peer_tail (take k sched) (tail q)\<rparr>)
     \<lparr>tail := peer_tail (take 1 (drop k sched)) (peer_tail (take k sched) (tail q))\<rparr>
   = q\<lparr>tail := peer_tail (take (Suc k) sched) (tail q)\<rparr>"
  by (simp only: peer_tail_take_Suc) simp

lemma peer_tail_in_range:
  assumes "\<forall>f \<in> set fs. \<forall>x. x < N \<longrightarrow> f x < N" and "x < N"
  shows "peer_tail fs x < N"
  using assms by (induction fs arbitrary: x) simp_all

lemma peer_in_range_take:
  assumes "peer_in_range N sched" and "x < N"
  shows "peer_tail (take k sched) x < N" "peer_tail (take j (drop k sched)) x < N"
proof -
  have "\<forall>f \<in> set (take k sched). \<forall>x. x < N \<longrightarrow> f x < N"
    using assms(1) unfolding peer_in_range_def by (meson in_set_takeD)
  then show "peer_tail (take k sched) x < N" using assms(2) by (rule peer_tail_in_range)
  have "\<forall>f \<in> set (take j (drop k sched)). \<forall>x. x < N \<longrightarrow> f x < N"
    using assms(1) unfolding peer_in_range_def by (meson in_set_takeD in_set_dropD)
  then show "peer_tail (take j (drop k sched)) x < N" using assms(2) by (rule peer_tail_in_range)
qed

lemma inv_tail_update:
  assumes "queue_inv N q" and "x < N"
  shows "queue_inv N (q\<lparr>tail := x\<rparr>)"
  using assms by (simp add: queue_inv_def)

subsection \<open>Facts about add\<close>

lemma add_flag: "fst (add N q p) \<longleftrightarrow> \<not> full N q"
  by (simp add: add_def)

lemma add_full: "full N q \<Longrightarrow> snd (add N q p) = q"
  by (simp add: add_def)

lemma add_tail: "tail (snd (add N q p)) = tail q"
  by (simp add: add_def)

lemma not_full_two:
  assumes "queue_inv N q" and "\<not> full N q"
  shows "2 \<le> unat N"
  using assms(2) full_nat [OF assms(1)] fill_less [OF assms(1)] by linarith

lemma add_then_untouched:
  assumes "queue_inv N q" and "\<not> full N q"
  shows "fill N (snd (add N q p)) = 1 \<longleftrightarrow> fill N q = 0"
  using add_fill [OF assms] by simp

subsection \<open>The loop of tx\<close>

text \<open>
  When the loop returns, the peer has gone through a prefix of the schedule, the queue
  it has left was not full, and the loop returns the result of \<open>add\<close> on that queue.
\<close>

lemma tx_loop_spec:
  assumes "tx_loop N q p sched = Some (q', sched')"
  shows "\<exists>k. sched' = drop k sched
     \<and> \<not> full N (q\<lparr>tail := peer_tail (take k sched) (tail q)\<rparr>)
     \<and> q' = snd (add N (q\<lparr>tail := peer_tail (take k sched) (tail q)\<rparr>) p)"
  using assms
proof (induction "length sched" arbitrary: sched q rule: less_induct)
  case less
  let ?q1 = "q\<lparr>tail := peer_tail (take 1 sched) (tail q)\<rparr>"
  have a: "peer_acts sched q = (?q1, drop 1 sched)" by (rule peer_acts_eq)
  obtain j where j: "j = 1 \<or> j = 2"
    and mid: "(if full N ?q1
            then (case drop 1 sched of
                    [] \<Rightarrow> None
                  | f # rest \<Rightarrow> Some (?q1\<lparr>tail := f (tail ?q1)\<rparr>, rest))
            else Some (?q1, drop 1 sched))
         = Some (q\<lparr>tail := peer_tail (take j sched) (tail q)\<rparr>, drop j sched)"
    and ne: "full N ?q1 \<longrightarrow> sched \<noteq> []"
  proof (cases "full N ?q1")
    case False
    then show ?thesis using that [of 1] by simp
  next
    case True
    show ?thesis
    proof (cases "drop 1 sched")
      case Nil
      with True less.prems a show ?thesis
        by (subst (asm) tx_loop.simps) simp
    next
      case (Cons f rest)
      then have r: "rest = drop 2 sched"
        by (metis drop_Suc drop_drop One_nat_def Suc_1 list.sel(3) tl_drop drop0 plus_1_eq_Suc)
      have "take 1 (drop 1 sched) = [f]" using Cons by simp
      then have "?q1\<lparr>tail := f (tail ?q1)\<rparr> = q\<lparr>tail := peer_tail (take 2 sched) (tail q)\<rparr>"
        using peer_step_twice [where q = q and k = 1 and sched = sched] by (simp add: numeral_2_eq_2)
      moreover have "sched \<noteq> []" using Cons by auto
      ultimately show ?thesis using that [of 2] True Cons r by simp
    qed
  qed
  let ?q2 = "q\<lparr>tail := peer_tail (take j sched) (tail q)\<rparr>"
  let ?q3 = "q\<lparr>tail := peer_tail (take (Suc j) sched) (tail q)\<rparr>"
  have b: "peer_acts (drop j sched) ?q2 = (?q3, drop (Suc j) sched)"
    unfolding peer_acts_eq using peer_step_twice [where q = q and k = j and sched = sched] by simp
  have step: "tx_loop N q p sched =
      (if fst (add N ?q3 p) = False then tx_loop N (snd (add N ?q3 p)) p (drop (Suc j) sched)
       else Some (snd (add N ?q3 p), drop (Suc j) sched))"
    by (subst tx_loop.simps) (simp only: a fst_conv snd_conv mid option.case prod.case b)
  show ?case
  proof (cases "full N ?q3")
    case False
    with less.prems step have "sched' = drop (Suc j) sched" "q' = snd (add N ?q3 p)"
      by (simp_all add: add_flag)
    with False show ?thesis by blast
  next
    case True
    with less.prems step have rec: "tx_loop N ?q3 p (drop (Suc j) sched) = Some (q', sched')"
      by (simp add: add_flag add_full)
    have "sched \<noteq> []"
    proof
      assume "sched = []"
      then have "?q1 = ?q3" by simp
      with True ne \<open>sched = []\<close> show False by simp
    qed
    then have "length (drop (Suc j) sched) < length sched" by (cases sched) simp_all
    from less.hyps [OF this rec] obtain k where
      k: "sched' = drop k (drop (Suc j) sched)"
        "\<not> full N (?q3\<lparr>tail := peer_tail (take k (drop (Suc j) sched)) (tail ?q3)\<rparr>)"
        "q' = snd (add N (?q3\<lparr>tail := peer_tail (take k (drop (Suc j) sched)) (tail ?q3)\<rparr>) p)"
      by blast
    have e: "?q3\<lparr>tail := peer_tail (take k (drop (Suc j) sched)) (tail ?q3)\<rparr>
        = q\<lparr>tail := peer_tail (take (Suc j + k) sched) (tail q)\<rparr>"
    proof -
      have "take (Suc j + k) sched = take (Suc j) sched @ take k (drop (Suc j) sched)"
        by (rule take_add)
      then show ?thesis by (simp only: peer_tail_append) simp
    qed
    have "sched' = drop (Suc j + k) sched" using k(1) by (simp add: add.commute)
    with k(2,3) show ?thesis unfolding e by blast
  qed
qed

text \<open>
  With a peer that has stopped, \<open>tx\<close> returns at once on a queue that is not full
  and never returns on a full one.
\<close>

lemma tx_idle_peer:
  "tx N t p [] =
     (if full N (tx_queue t) then None
      else Some (if single_element N (snd (add N (tx_queue t) p))
                 then t\<lparr>tx_queue := snd (add N (tx_queue t) p),
                        rx_ready_submitted := rx_ready_submitted t + 1\<rparr>
                 else t\<lparr>tx_queue := snd (add N (tx_queue t) p)\<rparr>, []))"
  unfolding tx_def by (subst tx_loop.simps) (simp add: peer_acts_def add_flag)

subsection \<open>Signal of tx\<close>

text \<open>
  Claim C5, amended. Let \<open>tx\<close> complete on a queue with both indices in range, with a
  peer that keeps \<open>_tail\<close> in range. Then the peer has gone through some steps before
  the successful \<open>add\<close> and through at most one more before \<open>single_element()\<close> is
  evaluated; the queue \<open>tx\<close> leaves is the result of that \<open>add\<close> with the tail where
  the peer has put it; \<open>tx\<close> has submitted the data-available signal exactly once if
  the queue holds exactly one descriptor at the moment \<open>single_element()\<close> is
  evaluated, and not at all otherwise. If the peer has not moved the tail between the
  \<open>add\<close> and that evaluation, this is the case exactly when the \<open>add\<close> found the
  queue empty.
\<close>

theorem tx_signal:
  assumes "tx N t p sched = Some (t', sched')"
    and "queue_inv N (tx_queue t)" and "peer_in_range N sched"
  shows "\<exists>used_add used_test q_add.
      sched = used_add @ used_test @ sched' \<and> length used_test \<le> 1
      \<and> q_add = (tx_queue t)\<lparr>tail := peer_tail used_add (tail (tx_queue t))\<rparr>
      \<and> \<not> full N q_add
      \<and> tx_queue t' = (snd (add N q_add p))\<lparr>tail := peer_tail used_test (tail q_add)\<rparr>
      \<and> tx_wakeup_needed t' = tx_wakeup_needed t
      \<and> rx_ready_submitted t'
          = rx_ready_submitted t + (if fill N (tx_queue t') = 1 then 1 else 0)
      \<and> (peer_tail used_test (tail q_add) = tail q_add
           \<longrightarrow> (fill N (tx_queue t') = 1 \<longleftrightarrow> fill N q_add = 0))"
proof -
  let ?q0 = "tx_queue t"
  from assms(1) obtain q1 s1 where l: "tx_loop N ?q0 p sched = Some (q1, s1)"
    by (auto simp: tx_def split: option.splits)
  from tx_loop_spec [OF l] obtain k where s1: "s1 = drop k sched"
    and nf: "\<not> full N (?q0\<lparr>tail := peer_tail (take k sched) (tail ?q0)\<rparr>)"
    and q1: "q1 = snd (add N (?q0\<lparr>tail := peer_tail (take k sched) (tail ?q0)\<rparr>) p)"
    by blast
  let ?ua = "take k sched" and ?ut = "take 1 (drop k sched)"
  let ?qa = "?q0\<lparr>tail := peer_tail ?ua (tail ?q0)\<rparr>"
  let ?qf = "(snd (add N ?qa p))\<lparr>tail := peer_tail ?ut (tail ?qa)\<rparr>"
  have tq: "tail (snd (add N ?qa p)) = tail ?qa" using nf by (simp add: add_def)
  have c: "peer_acts s1 q1 = (?qf, drop (Suc k) sched)"
    unfolding peer_acts_eq s1 q1 tq by simp
  have t': "t' = (if single_element N ?qf
                   then t\<lparr>tx_queue := ?qf, rx_ready_submitted := rx_ready_submitted t + 1\<rparr>
                   else t\<lparr>tx_queue := ?qf\<rparr>)"
    and sched': "sched' = drop (Suc k) sched"
    using assms(1) l c by (auto simp: tx_def)
  have t0: "tail ?q0 < N" using assms(2) by (simp add: queue_inv_def)
  have inva: "queue_inv N ?qa"
    using inv_tail_update [OF assms(2) peer_in_range_take(1) [OF assms(3) t0]] .
  have ta: "tail ?qa < N" using inva by (simp add: queue_inv_def)
  have invf: "queue_inv N ?qf"
    using inv_tail_update [OF add_inv [OF inva] peer_in_range_take(2) [OF assms(3) ta]] .
  have se: "single_element N ?qf \<longleftrightarrow> fill N ?qf = 1"
    using single_element_nat [OF invf not_full_two [OF inva nf]] .
  have split: "sched = ?ua @ ?ut @ sched'"
  proof -
    have "drop 1 (drop k sched) = drop (Suc k) sched" by simp
    then have "take 1 (drop k sched) @ drop (Suc k) sched = drop k sched"
      using append_take_drop_id [of 1 "drop k sched"] by (simp only:)
    then have "drop k sched = ?ut @ sched'" unfolding sched' by simp
    then show ?thesis by (metis append_take_drop_id)
  qed
  have quiet: "fill N ?qf = 1 \<longleftrightarrow> fill N ?qa = 0"
    if "peer_tail ?ut (tail ?qa) = tail ?qa"
  proof -
    have "?qf = snd (add N ?qa p)" using that tq by simp
    then show ?thesis using add_then_untouched [OF inva nf] by simp
  qed
  have qf: "tx_queue t' = ?qf" using t' by simp
  have main: "sched = ?ua @ ?ut @ sched' \<and> length ?ut \<le> 1
      \<and> ?qa = (tx_queue t)\<lparr>tail := peer_tail ?ua (tail (tx_queue t))\<rparr>
      \<and> \<not> full N ?qa
      \<and> tx_queue t' = (snd (add N ?qa p))\<lparr>tail := peer_tail ?ut (tail ?qa)\<rparr>
      \<and> tx_wakeup_needed t' = tx_wakeup_needed t
      \<and> rx_ready_submitted t'
          = rx_ready_submitted t + (if fill N (tx_queue t') = 1 then 1 else 0)
      \<and> (peer_tail ?ut (tail ?qa) = tail ?qa
           \<longrightarrow> (fill N (tx_queue t') = 1 \<longleftrightarrow> fill N ?qa = 0))"
    unfolding qf using split nf quiet se t' by simp
  show ?thesis
    by (rule exI [of _ ?ua], rule exI [of _ ?ut], rule exI [of _ ?qa]) (rule main)
qed

theorem tx_signal_witness:
  "tx 2 \<lparr>tx_queue = \<lparr>head = 1, tail = 0,
                        queue = [\<lparr>offset = 64, size = 8\<rparr>, \<lparr>offset = 0, size = 0\<rparr>]\<rparr>,
          tx_wakeup_needed = False, rx_ready_submitted = 0\<rparr>
        \<lparr>offset = 128, size = 8\<rparr> [id, peer_get 2, id, id]
     = Some (\<lparr>tx_queue = \<lparr>head = 0, tail = 1,
                   queue = [\<lparr>offset = 64, size = 8\<rparr>, \<lparr>offset = 128, size = 8\<rparr>]\<rparr>,
              tx_wakeup_needed = False, rx_ready_submitted = 1\<rparr>, [])
   \<and> queue_inv 2 \<lparr>head = 1, tail = 0,
          queue = [\<lparr>offset = 64, size = 8\<rparr>, \<lparr>offset = 0, size = 0\<rparr>]\<rparr>
   \<and> peer_in_range 2 [id, peer_get 2, id, id]
   \<and> fill 2 \<lparr>head = 0, tail = 1,
          queue = [\<lparr>offset = 64, size = 8\<rparr>, \<lparr>offset = 128, size = 8\<rparr>]\<rparr> = 1
   \<and> (\<exists>used_add used_test.
         [id, peer_get 2, id, id] = used_add @ used_test @ [] \<and> length used_test \<le> 1
         \<and> \<not> full 2 \<lparr>head = 1, tail = peer_tail used_add 0,
               queue = [\<lparr>offset = 64, size = 8\<rparr>, \<lparr>offset = 0, size = 0\<rparr>]\<rparr>)"
proof -
  let ?t = "\<lparr>tx_queue = \<lparr>head = 1, tail = 0,
                        queue = [\<lparr>offset = 64, size = 8\<rparr>, \<lparr>offset = 0, size = 0\<rparr>]\<rparr>,
          tx_wakeup_needed = False, rx_ready_submitted = 0\<rparr>"
  let ?t' = "\<lparr>tx_queue = \<lparr>head = 0, tail = 1,
                   queue = [\<lparr>offset = 64, size = 8\<rparr>, \<lparr>offset = 128, size = 8\<rparr>]\<rparr>,
              tx_wakeup_needed = False, rx_ready_submitted = 1\<rparr>"
  have h: "tx 2 ?t \<lparr>offset = 128, size = 8\<rparr> [id, peer_get 2, id, id] = Some (?t', [])"
    by code_simp
  have i: "queue_inv 2 (tx_queue ?t)" by (simp add: queue_inv_def)
  have r: "peer_in_range 2 [id, peer_get 2, id, id]"
    by (simp add: peer_in_range_def peer_get_def word_mod_less_divisor)
  have f: "fill 2 (tx_queue ?t') = 1" by (simp add: fill_def)
  from tx_signal [OF h i r] obtain used_add used_test where
    "[id, peer_get 2, id, id] = used_add @ used_test @ []" "length used_test \<le> 1"
    "\<not> full 2 ((tx_queue ?t)\<lparr>tail := peer_tail used_add (tail (tx_queue ?t))\<rparr>)"
    by blast
  then have "\<exists>used_add used_test.
         [id, peer_get 2, id, id] = used_add @ used_test @ [] \<and> length used_test \<le> 1
         \<and> \<not> full 2 \<lparr>head = 1, tail = peer_tail used_add 0,
               queue = [\<lparr>offset = 64, size = 8\<rparr>, \<lparr>offset = 0, size = 0\<rparr>]\<rparr>"
    by auto
  with h i r f show ?thesis by simp
qed

text \<open>
  The claim as stated does not hold when the peer takes the descriptor between the
  \<open>add\<close> and the evaluation of \<open>single_element()\<close>: the \<open>add\<close> finds the queue
  empty and leaves one element, the peer's \<open>get()\<close> advances \<open>_tail\<close>, and
  \<open>single_element()\<close> compares \<open>(1 + 1) % 4\<close> with 1; no signal is submitted.
\<close>

theorem tx_signal_counterexample:
  "empty (tx_queue (Packet_descriptor_transmitter_ctor (queue_init 4)))
   \<and> add 4 (tx_queue (Packet_descriptor_transmitter_ctor (queue_init 4))) \<lparr>offset = 64, size = 8\<rparr>
       = (True, \<lparr>head = 1, tail = 0,
                 queue = [\<lparr>offset = 64, size = 8\<rparr>, \<lparr>offset = 0, size = 0\<rparr>,
                          \<lparr>offset = 0, size = 0\<rparr>, \<lparr>offset = 0, size = 0\<rparr>]\<rparr>)
   \<and> single_element 4 \<lparr>head = 1, tail = 0,
                 queue = [\<lparr>offset = 64, size = 8\<rparr>, \<lparr>offset = 0, size = 0\<rparr>,
                          \<lparr>offset = 0, size = 0\<rparr>, \<lparr>offset = 0, size = 0\<rparr>]\<rparr>
   \<and> tx 4 (Packet_descriptor_transmitter_ctor (queue_init 4)) \<lparr>offset = 64, size = 8\<rparr>
         [id, id, peer_get 4]
       = Some (\<lparr>tx_queue = \<lparr>head = 1, tail = 1,
                 queue = [\<lparr>offset = 64, size = 8\<rparr>, \<lparr>offset = 0, size = 0\<rparr>,
                          \<lparr>offset = 0, size = 0\<rparr>, \<lparr>offset = 0, size = 0\<rparr>]\<rparr>,
                tx_wakeup_needed = False, rx_ready_submitted = 0\<rparr>, [])
   \<and> rx_ready_submitted (Packet_descriptor_transmitter_ctor (queue_init 4)) = 0"
  by code_simp

subsection \<open>Deferred wakeup of try_tx\<close>

lemma try_tx_full:
  assumes "full N (fst (peer_acts sched (tx_queue t)))"
  shows "try_tx N t p sched
     = ((False, t\<lparr>tx_queue := fst (peer_acts sched (tx_queue t))\<rparr>), drop 1 sched)"
  using assms by (simp add: try_tx_def peer_acts_eq)

lemma try_tx_success:
  assumes "try_tx N t p sched = ((True, t1), sched1)"
  shows "\<not> full N ((tx_queue t)\<lparr>tail := peer_tail (take 1 sched) (tail (tx_queue t))\<rparr>)"
    and "sched1 = drop 3 sched"
    and "t1 = (if single_element N
                 ((snd (add N ((tx_queue t)\<lparr>tail := peer_tail (take 2 sched) (tail (tx_queue t))\<rparr>) p))
                    \<lparr>tail := peer_tail (take 1 (drop 2 sched))
                               (peer_tail (take 2 sched) (tail (tx_queue t)))\<rparr>)
               then t\<lparr>tx_queue :=
                 (snd (add N ((tx_queue t)\<lparr>tail := peer_tail (take 2 sched) (tail (tx_queue t))\<rparr>) p))
                    \<lparr>tail := peer_tail (take 1 (drop 2 sched))
                               (peer_tail (take 2 sched) (tail (tx_queue t)))\<rparr>,
                 tx_wakeup_needed := True\<rparr>
               else t\<lparr>tx_queue :=
                 (snd (add N ((tx_queue t)\<lparr>tail := peer_tail (take 2 sched) (tail (tx_queue t))\<rparr>) p))
                    \<lparr>tail := peer_tail (take 1 (drop 2 sched))
                               (peer_tail (take 2 sched) (tail (tx_queue t)))\<rparr>\<rparr>)"
proof -
  let ?q0 = "tx_queue t"
  let ?q1 = "?q0\<lparr>tail := peer_tail (take 1 sched) (tail ?q0)\<rparr>"
  let ?q2 = "?q0\<lparr>tail := peer_tail (take 2 sched) (tail ?q0)\<rparr>"
  have a: "peer_acts sched ?q0 = (?q1, drop 1 sched)" by (rule peer_acts_eq)
  have b: "peer_acts (drop 1 sched) ?q1 = (?q2, drop 2 sched)"
    unfolding peer_acts_eq
    using peer_step_twice [where q = ?q0 and k = 1 and sched = sched]
    by (simp add: numeral_2_eq_2)
  have c: "peer_acts (drop 2 sched) (snd (add N ?q2 p))
      = ((snd (add N ?q2 p))\<lparr>tail := peer_tail (take 1 (drop 2 sched))
                               (peer_tail (take 2 sched) (tail ?q0))\<rparr>, drop 3 sched)"
    unfolding peer_acts_eq add_tail by (simp add: numeral_3_eq_3 numeral_2_eq_2)
  let ?q3 = "(snd (add N ?q2 p))\<lparr>tail := peer_tail (take 1 (drop 2 sched))
                               (peer_tail (take 2 sched) (tail ?q0))\<rparr>"
  have e: "try_tx N t p sched =
      (if full N ?q1 then ((False, t\<lparr>tx_queue := ?q1\<rparr>), drop 1 sched)
       else ((True, if single_element N ?q3
                    then t\<lparr>tx_queue := ?q3, tx_wakeup_needed := True\<rparr>
                    else t\<lparr>tx_queue := ?q3\<rparr>), drop 3 sched))"
    by (simp only: try_tx_def a b c prod.case)
  show nf: "\<not> full N ?q1" using assms unfolding e by (auto split: if_splits)
  show "sched1 = drop 3 sched" using assms nf unfolding e by simp
  show "t1 = (if single_element N ?q3
               then t\<lparr>tx_queue := ?q3, tx_wakeup_needed := True\<rparr>
               else t\<lparr>tx_queue := ?q3\<rparr>)"
    using assms nf unfolding e by auto
qed

lemma try_tx_idle_peer:
  "try_tx N t p [] =
     (if full N (tx_queue t) then ((False, t), [])
      else ((True, if single_element N (snd (add N (tx_queue t) p))
                   then t\<lparr>tx_queue := snd (add N (tx_queue t) p), tx_wakeup_needed := True\<rparr>
                   else t\<lparr>tx_queue := snd (add N (tx_queue t) p)\<rparr>), []))"
  by (simp add: try_tx_def peer_acts_def)

lemma try_tx_nonempty_idle:
  assumes "queue_inv N (tx_queue t)" and "fill N (tx_queue t) = 1"
  shows "tx_wakeup_needed (snd (fst (try_tx N t p []))) = tx_wakeup_needed t"
    and "rx_ready_submitted (snd (fst (try_tx N t p []))) = rx_ready_submitted t"
proof -
  let ?q = "tx_queue t"
  have "\<not> single_element N (snd (add N ?q p))" if nf: "\<not> full N ?q"
  proof -
    have "fill N (snd (add N ?q p)) = 2" using add_fill [OF assms(1) nf] assms(2) by simp
    then show ?thesis
      using single_element_nat [OF add_inv [OF assms(1)] not_full_two [OF assms(1) nf]] by simp
  qed
  then show "tx_wakeup_needed (snd (fst (try_tx N t p []))) = tx_wakeup_needed t"
    and "rx_ready_submitted (snd (fst (try_tx N t p []))) = rx_ready_submitted t"
    by (auto simp: try_tx_idle_peer)
qed

text \<open>
  Claim C6, amended. Let \<open>try_tx\<close> succeed on a queue with both indices in range,
  with a peer that keeps \<open>_tail\<close> in range. It submits no signal itself, and it sets
  the wakeup flag exactly when the queue holds exactly one descriptor at the moment
  \<open>single_element()\<close> is evaluated; if the queue was not full at the \<open>add\<close> and the
  peer has not moved the tail since, this is the case exactly when the \<open>add\<close> found
  the queue empty. If the \<open>add\<close> found the queue empty and the peer has not moved the
  tail before \<open>single_element()\<close> is evaluated, the next \<open>tx_wakeup\<close> submits the
  signal and returns true, and a second \<open>tx_wakeup\<close> submits nothing and returns
  false, whether it follows at once or after another \<open>try_tx\<close> during which the peer
  is idle (that call fails, or adds to a queue that is not empty).
\<close>

theorem try_tx_deferred_wakeup:
  assumes "try_tx N t p sched = ((True, t1), sched1)"
    and "queue_inv N (tx_queue t)" and "peer_in_range N sched"
  shows "\<exists>used_add used_test q_add.
      sched = used_add @ used_test @ sched1 \<and> length used_test \<le> 1
      \<and> q_add = (tx_queue t)\<lparr>tail := peer_tail used_add (tail (tx_queue t))\<rparr>
      \<and> tx_queue t1 = (snd (add N q_add p))\<lparr>tail := peer_tail used_test (tail q_add)\<rparr>
      \<and> rx_ready_submitted t1 = rx_ready_submitted t
      \<and> tx_wakeup_needed t1 = (tx_wakeup_needed t \<or> fill N (tx_queue t1) = 1)
      \<and> (\<not> full N q_add \<and> peer_tail used_test (tail q_add) = tail q_add
           \<longrightarrow> (fill N (tx_queue t1) = 1 \<longleftrightarrow> fill N q_add = 0))
      \<and> (fill N q_add = 0 \<and> peer_tail used_test (tail q_add) = tail q_add
           \<longrightarrow> fst (tx_wakeup t1) = True
             \<and> rx_ready_submitted (snd (tx_wakeup t1)) = rx_ready_submitted t + 1
             \<and> fst (tx_wakeup (snd (tx_wakeup t1))) = False
             \<and> rx_ready_submitted (snd (tx_wakeup (snd (tx_wakeup t1))))
                 = rx_ready_submitted t + 1
             \<and> (\<forall>p2. fst (tx_wakeup (snd (fst (try_tx N (snd (tx_wakeup t1)) p2 [])))) = False
                    \<and> rx_ready_submitted
                         (snd (tx_wakeup (snd (fst (try_tx N (snd (tx_wakeup t1)) p2 [])))))
                        = rx_ready_submitted t + 1))"
proof -
  let ?q0 = "tx_queue t"
  let ?ua = "take 2 sched" and ?ut = "take 1 (drop 2 sched)"
  let ?q1 = "?q0\<lparr>tail := peer_tail (take 1 sched) (tail ?q0)\<rparr>"
  let ?qa = "?q0\<lparr>tail := peer_tail ?ua (tail ?q0)\<rparr>"
  let ?qf = "(snd (add N ?qa p))\<lparr>tail := peer_tail ?ut (tail ?qa)\<rparr>"
  note s = try_tx_success [OF assms(1)]
  have t1: "t1 = (if single_element N ?qf
               then t\<lparr>tx_queue := ?qf, tx_wakeup_needed := True\<rparr>
               else t\<lparr>tx_queue := ?qf\<rparr>)"
    using s(3) by simp
  have t0: "tail ?q0 < N" using assms(2) by (simp add: queue_inv_def)
  have inv1: "queue_inv N ?q1"
    using inv_tail_update [OF assms(2) peer_in_range_take(1) [OF assms(3) t0]] .
  have two: "2 \<le> unat N" using not_full_two [OF inv1 s(1)] .
  have inva: "queue_inv N ?qa"
    using inv_tail_update [OF assms(2) peer_in_range_take(1) [OF assms(3) t0]] .
  have ta: "tail ?qa < N" using inva by (simp add: queue_inv_def)
  have invf: "queue_inv N ?qf"
    using inv_tail_update [OF add_inv [OF inva] peer_in_range_take(2) [OF assms(3) ta]] .
  have se: "single_element N ?qf \<longleftrightarrow> fill N ?qf = 1"
    using single_element_nat [OF invf two] .
  have qf: "tx_queue t1 = ?qf" using t1 by simp
  have split: "sched = ?ua @ ?ut @ sched1"
  proof -
    have "drop 1 (drop 2 sched) = drop 3 sched" by (simp add: numeral_3_eq_3)
    then have "take 1 (drop 2 sched) @ drop 3 sched = drop 2 sched"
      using append_take_drop_id [of 1 "drop 2 sched"] by (simp only:)
    then have "drop 2 sched = ?ut @ sched1" unfolding s(2) by simp
    then show ?thesis by (metis append_take_drop_id)
  qed
  have quiet: "fill N ?qf = 1 \<longleftrightarrow> fill N ?qa = 0"
    if "\<not> full N ?qa" "peer_tail ?ut (tail ?qa) = tail ?qa"
  proof -
    have "?qf = snd (add N ?qa p)" using that(2) by (simp add: add_tail)
    then show ?thesis using add_then_untouched [OF inva that(1)] by simp
  qed
  have scen: "fst (tx_wakeup t1) = True
             \<and> rx_ready_submitted (snd (tx_wakeup t1)) = rx_ready_submitted t + 1
             \<and> fst (tx_wakeup (snd (tx_wakeup t1))) = False
             \<and> rx_ready_submitted (snd (tx_wakeup (snd (tx_wakeup t1))))
                 = rx_ready_submitted t + 1
             \<and> (\<forall>p2. fst (tx_wakeup (snd (fst (try_tx N (snd (tx_wakeup t1)) p2 [])))) = False
                    \<and> rx_ready_submitted
                         (snd (tx_wakeup (snd (fst (try_tx N (snd (tx_wakeup t1)) p2 [])))))
                        = rx_ready_submitted t + 1)"
    if e: "fill N ?qa = 0" and q: "peer_tail ?ut (tail ?qa) = tail ?qa"
  proof -
    have nf: "\<not> full N ?qa" using full_nat [OF inva] e two by simp
    have one: "fill N ?qf = 1" using quiet [OF nf q] e by simp
    then have t1': "t1 = t\<lparr>tx_queue := ?qf, tx_wakeup_needed := True\<rparr>"
      using t1 se by simp
    let ?t2 = "snd (tx_wakeup t1)"
    have t2: "?t2 = t\<lparr>tx_queue := ?qf, tx_wakeup_needed := False,
                       rx_ready_submitted := rx_ready_submitted t + 1\<rparr>"
      unfolding t1' by (simp add: tx_wakeup_def)
    have w1: "fst (tx_wakeup t1) = True" unfolding t1' by (simp add: tx_wakeup_def)
    have i2: "queue_inv N (tx_queue ?t2)" and f2: "fill N (tx_queue ?t2) = 1"
      unfolding t2 using invf one by simp_all
    have n2: "tx_wakeup_needed ?t2 = False" and r2: "rx_ready_submitted ?t2 = rx_ready_submitted t + 1"
      unfolding t2 by simp_all
    have later: "fst (tx_wakeup (snd (fst (try_tx N ?t2 p2 [])))) = False
                    \<and> rx_ready_submitted (snd (tx_wakeup (snd (fst (try_tx N ?t2 p2 [])))))
                        = rx_ready_submitted t + 1" for p2
      using try_tx_nonempty_idle [OF i2 f2, of p2] n2 r2 by (simp add: tx_wakeup_def)
    have w2: "fst (tx_wakeup ?t2) = False"
      "rx_ready_submitted (snd (tx_wakeup ?t2)) = rx_ready_submitted t + 1"
      using n2 r2 by (simp_all add: tx_wakeup_def)
    from w1 r2 w2 later show ?thesis by blast
  qed
  have main: "sched = ?ua @ ?ut @ sched1 \<and> length ?ut \<le> 1
      \<and> ?qa = (tx_queue t)\<lparr>tail := peer_tail ?ua (tail (tx_queue t))\<rparr>
      \<and> tx_queue t1 = (snd (add N ?qa p))\<lparr>tail := peer_tail ?ut (tail ?qa)\<rparr>
      \<and> rx_ready_submitted t1 = rx_ready_submitted t
      \<and> tx_wakeup_needed t1 = (tx_wakeup_needed t \<or> fill N (tx_queue t1) = 1)
      \<and> (\<not> full N ?qa \<and> peer_tail ?ut (tail ?qa) = tail ?qa
           \<longrightarrow> (fill N (tx_queue t1) = 1 \<longleftrightarrow> fill N ?qa = 0))
      \<and> (fill N ?qa = 0 \<and> peer_tail ?ut (tail ?qa) = tail ?qa
           \<longrightarrow> fst (tx_wakeup t1) = True
             \<and> rx_ready_submitted (snd (tx_wakeup t1)) = rx_ready_submitted t + 1
             \<and> fst (tx_wakeup (snd (tx_wakeup t1))) = False
             \<and> rx_ready_submitted (snd (tx_wakeup (snd (tx_wakeup t1))))
                 = rx_ready_submitted t + 1
             \<and> (\<forall>p2. fst (tx_wakeup (snd (fst (try_tx N (snd (tx_wakeup t1)) p2 [])))) = False
                    \<and> rx_ready_submitted
                         (snd (tx_wakeup (snd (fst (try_tx N (snd (tx_wakeup t1)) p2 [])))))
                        = rx_ready_submitted t + 1))"
  proof (intro conjI)
    show "sched = ?ua @ ?ut @ sched1" by (rule split)
    show "length ?ut \<le> 1" by simp
    show "?qa = (tx_queue t)\<lparr>tail := peer_tail ?ua (tail (tx_queue t))\<rparr>" ..
    show "tx_queue t1 = (snd (add N ?qa p))\<lparr>tail := peer_tail ?ut (tail ?qa)\<rparr>" by (rule qf)
    show "rx_ready_submitted t1 = rx_ready_submitted t" using t1 by simp
    show "tx_wakeup_needed t1 = (tx_wakeup_needed t \<or> fill N (tx_queue t1) = 1)"
      unfolding qf using t1 se by simp
    show "\<not> full N ?qa \<and> peer_tail ?ut (tail ?qa) = tail ?qa
           \<longrightarrow> (fill N (tx_queue t1) = 1 \<longleftrightarrow> fill N ?qa = 0)"
      unfolding qf using quiet by blast
    show "fill N ?qa = 0 \<and> peer_tail ?ut (tail ?qa) = tail ?qa
           \<longrightarrow> fst (tx_wakeup t1) = True
             \<and> rx_ready_submitted (snd (tx_wakeup t1)) = rx_ready_submitted t + 1
             \<and> fst (tx_wakeup (snd (tx_wakeup t1))) = False
             \<and> rx_ready_submitted (snd (tx_wakeup (snd (tx_wakeup t1))))
                 = rx_ready_submitted t + 1
             \<and> (\<forall>p2. fst (tx_wakeup (snd (fst (try_tx N (snd (tx_wakeup t1)) p2 [])))) = False
                    \<and> rx_ready_submitted
                         (snd (tx_wakeup (snd (fst (try_tx N (snd (tx_wakeup t1)) p2 [])))))
                        = rx_ready_submitted t + 1)"
      using scen by blast
  qed
  show ?thesis
    by (rule exI [of _ ?ua], rule exI [of _ ?ut], rule exI [of _ ?qa]) (rule main)
qed

theorem try_tx_deferred_wakeup_witness:
  "try_tx 4 (Packet_descriptor_transmitter_ctor (queue_init 4)) \<lparr>offset = 64, size = 8\<rparr>
       [id, id, id, peer_get 4]
     = ((True, \<lparr>tx_queue = \<lparr>head = 1, tail = 0,
                   queue = [\<lparr>offset = 64, size = 8\<rparr>, \<lparr>offset = 0, size = 0\<rparr>,
                            \<lparr>offset = 0, size = 0\<rparr>, \<lparr>offset = 0, size = 0\<rparr>]\<rparr>,
               tx_wakeup_needed = True, rx_ready_submitted = 0\<rparr>), [peer_get 4])
   \<and> queue_inv 4 (tx_queue (Packet_descriptor_transmitter_ctor (queue_init 4)))
   \<and> peer_in_range 4 [id, id, id, peer_get 4]
   \<and> fill 4 (tx_queue (Packet_descriptor_transmitter_ctor (queue_init 4))) = 0
   \<and> tx_wakeup \<lparr>tx_queue = \<lparr>head = 1, tail = 0,
                   queue = [\<lparr>offset = 64, size = 8\<rparr>, \<lparr>offset = 0, size = 0\<rparr>,
                            \<lparr>offset = 0, size = 0\<rparr>, \<lparr>offset = 0, size = 0\<rparr>]\<rparr>,
               tx_wakeup_needed = True, rx_ready_submitted = 0\<rparr>
     = (True, \<lparr>tx_queue = \<lparr>head = 1, tail = 0,
                   queue = [\<lparr>offset = 64, size = 8\<rparr>, \<lparr>offset = 0, size = 0\<rparr>,
                            \<lparr>offset = 0, size = 0\<rparr>, \<lparr>offset = 0, size = 0\<rparr>]\<rparr>,
               tx_wakeup_needed = False, rx_ready_submitted = 1\<rparr>)
   \<and> fst (tx_wakeup \<lparr>tx_queue = \<lparr>head = 1, tail = 0,
                   queue = [\<lparr>offset = 64, size = 8\<rparr>, \<lparr>offset = 0, size = 0\<rparr>,
                            \<lparr>offset = 0, size = 0\<rparr>, \<lparr>offset = 0, size = 0\<rparr>]\<rparr>,
               tx_wakeup_needed = False, rx_ready_submitted = 1\<rparr>) = False
   \<and> (\<exists>used_add used_test.
         [id, id, id, peer_get 4] = used_add @ used_test @ [peer_get 4]
         \<and> length used_test \<le> 1)"
proof -
  let ?t = "Packet_descriptor_transmitter_ctor (queue_init 4)"
  let ?t1 = "\<lparr>tx_queue = \<lparr>head = 1, tail = 0,
                   queue = [\<lparr>offset = 64, size = 8\<rparr>, \<lparr>offset = 0, size = 0\<rparr>,
                            \<lparr>offset = 0, size = 0\<rparr>, \<lparr>offset = 0, size = 0\<rparr>]\<rparr>,
               tx_wakeup_needed = True, rx_ready_submitted = 0\<rparr>"
  have h: "try_tx 4 ?t \<lparr>offset = 64, size = 8\<rparr> [id, id, id, peer_get 4]
      = ((True, ?t1), [peer_get 4])"
    by code_simp
  have i: "queue_inv 4 (tx_queue ?t)"
    by (simp add: queue_inv_def Packet_descriptor_transmitter_ctor_def queue_init_def
        Packet_descriptor_queue_ctor_def)
  have r: "peer_in_range 4 [id, id, id, peer_get 4]"
    by (simp add: peer_in_range_def peer_get_def word_mod_less_divisor)
  have f: "fill 4 (tx_queue ?t) = 0"
    by (simp add: fill_def Packet_descriptor_transmitter_ctor_def queue_init_def
        Packet_descriptor_queue_ctor_def)
  from try_tx_deferred_wakeup [OF h i r] obtain used_add used_test where
    "[id, id, id, peer_get 4] = used_add @ used_test @ [peer_get 4]" "length used_test \<le> 1"
    by blast
  then have "\<exists>used_add used_test.
         [id, id, id, peer_get 4] = used_add @ used_test @ [peer_get 4]
         \<and> length used_test \<le> 1"
    by blast
  with h i r f show ?thesis by (simp add: tx_wakeup_def)
qed

text \<open>
  The claim as stated does not hold when the peer takes the descriptor between the
  \<open>add\<close> and the evaluation of \<open>single_element()\<close>: \<open>try_tx\<close> has made the queue
  go from empty to one element, but the flag stays clear and the next \<open>tx_wakeup\<close>
  submits nothing and returns false.
\<close>

theorem try_tx_deferred_wakeup_counterexample:
  "empty (tx_queue (Packet_descriptor_transmitter_ctor (queue_init 4)))
   \<and> add 4 (tx_queue (Packet_descriptor_transmitter_ctor (queue_init 4))) \<lparr>offset = 64, size = 8\<rparr>
       = (True, \<lparr>head = 1, tail = 0,
                 queue = [\<lparr>offset = 64, size = 8\<rparr>, \<lparr>offset = 0, size = 0\<rparr>,
                          \<lparr>offset = 0, size = 0\<rparr>, \<lparr>offset = 0, size = 0\<rparr>]\<rparr>)
   \<and> single_element 4 \<lparr>head = 1, tail = 0,
                 queue = [\<lparr>offset = 64, size = 8\<rparr>, \<lparr>offset = 0, size = 0\<rparr>,
                          \<lparr>offset = 0, size = 0\<rparr>, \<lparr>offset = 0, size = 0\<rparr>]\<rparr>
   \<and> try_tx 4 (Packet_descriptor_transmitter_ctor (queue_init 4)) \<lparr>offset = 64, size = 8\<rparr>
         [id, id, peer_get 4]
       = ((True, \<lparr>tx_queue = \<lparr>head = 1, tail = 1,
                 queue = [\<lparr>offset = 64, size = 8\<rparr>, \<lparr>offset = 0, size = 0\<rparr>,
                          \<lparr>offset = 0, size = 0\<rparr>, \<lparr>offset = 0, size = 0\<rparr>]\<rparr>,
                tx_wakeup_needed = False, rx_ready_submitted = 0\<rparr>), [])
   \<and> tx_wakeup \<lparr>tx_queue = \<lparr>head = 1, tail = 1,
                 queue = [\<lparr>offset = 64, size = 8\<rparr>, \<lparr>offset = 0, size = 0\<rparr>,
                          \<lparr>offset = 0, size = 0\<rparr>, \<lparr>offset = 0, size = 0\<rparr>]\<rparr>,
                tx_wakeup_needed = False, rx_ready_submitted = 0\<rparr>
       = (False, \<lparr>tx_queue = \<lparr>head = 1, tail = 1,
                 queue = [\<lparr>offset = 64, size = 8\<rparr>, \<lparr>offset = 0, size = 0\<rparr>,
                          \<lparr>offset = 0, size = 0\<rparr>, \<lparr>offset = 0, size = 0\<rparr>]\<rparr>,
                tx_wakeup_needed = False, rx_ready_submitted = 0\<rparr>)"
  by code_simp

section \<open>Layout and packet validation\<close>

subsection \<open>Rounding up to the alignment boundary\<close>

lemma and_not_63:
  fixes w :: "64 word"
  shows "w AND NOT 63 = push_bit 6 (drop_bit 6 w)"
proof -
  have m: "(63 :: 64 word) = mask 6" by (simp add: mask_eq_exp_minus_1)
  show ?thesis unfolding m
    by (rule bit_word_eqI) (auto simp: bit_simps)
qed

lemma unat_and_not_63:
  fixes w :: "64 word"
  shows "unat (w AND NOT 63) = (unat w div 64) * 64"
proof -
  have "unat (drop_bit 6 w) = unat w div 64"
    by (simp add: drop_bit_eq_div unat_div)
  moreover have "unat w div 64 * 64 < 2 ^ 64"
  proof -
    have "unat w div 64 * 64 \<le> unat w" by simp
    also have "unat w < 2 ^ 64" using unsigned_less [of w, where 'a = nat] by simp
    finally show ?thesis .
  qed
  ultimately have "(unat (drop_bit 6 w) * 64) mod 2 ^ 64 = unat w div 64 * 64"
    by (simp only: mod_less)
  then show ?thesis
    unfolding and_not_63 by (simp add: push_bit_eq_mult unat_word_ariths)
qed

lemma unat_align_addr:
  assumes "unat x + 63 < 2 ^ 64"
  shows "unat (align_addr x 6) = ((unat x + 63) div 64) * 64"
proof -
  have a: "align_addr x 6 = (x + 63) AND NOT 63" by (simp add: align_addr_def)
  have "unat (x + 63) = unat x + 63" using assms by (simp add: unat_word_ariths)
  then show ?thesis unfolding a unat_and_not_63 by simp
qed

subsection \<open>The constructor\<close>

text \<open>
  Claim C4. The bulk buffer starts at the end of the submit queue followed by the ack
  queue, rounded up to the next multiple of 64. The constructor throws
  \<open>Transport_dataspace_too_small\<close> if and only if this offset is greater than or equal
  to the dataspace size \<open>S\<close>; otherwise it succeeds and \<open>bulk_buffer_size\<close> is \<open>S\<close>
  minus the offset. The two queue sizes are object sizes: their sum, rounded up, is
  assumed to fit the machine word.
\<close>

theorem base_ctor_layout:
  assumes "unat submit_queue_size + unat ack_queue_size + 63 < 2 ^ 64"
  shows "if unat S \<le> ((unat submit_queue_size + unat ack_queue_size + 63) div 64) * 64
         then Packet_stream_base_ctor lb S submit_queue_size ack_queue_size
              = Inl Transport_dataspace_too_small
         else \<exists>b. Packet_stream_base_ctor lb S submit_queue_size ack_queue_size = Inr b
                \<and> unat (bulk_buffer_offset b)
                    = ((unat submit_queue_size + unat ack_queue_size + 63) div 64) * 64
                \<and> bulk_buffer_size b = S - bulk_buffer_offset b
                \<and> unat (bulk_buffer_size b) = unat S - unat (bulk_buffer_offset b)
                \<and> ds_size b = S"
proof -
  let ?bbo = "align_addr (submit_queue_size + ack_queue_size) 6"
  have s: "unat (submit_queue_size + ack_queue_size)
      = unat submit_queue_size + unat ack_queue_size"
    using assms by (simp add: unat_word_ariths)
  have bbo: "unat ?bbo = ((unat submit_queue_size + unat ack_queue_size + 63) div 64) * 64"
    using unat_align_addr [of "submit_queue_size + ack_queue_size"] assms
    unfolding s by simp
  show ?thesis
  proof (cases "?bbo \<ge> S")
    case True
    then have "unat S \<le> unat ?bbo" by (simp add: word_le_nat_alt)
    then show ?thesis using True
      by (simp add: Packet_stream_base_ctor_def Let_def bbo)
  next
    case False
    then have lt: "\<not> unat S \<le> unat ?bbo" by (simp add: word_le_nat_alt)
    have le: "?bbo \<le> S" using False by simp
    have "unat (S - ?bbo) = unat S - unat ?bbo" using le by (simp add: unat_sub)
    then show ?thesis using False lt
      by (simp add: Packet_stream_base_ctor_def Let_def bbo)
  qed
qed

theorem base_ctor_layout_witness:
  "unat (1032 :: size_t) + unat (1032 :: size_t) + 63 < 2 ^ 64
   \<and> Packet_stream_base_ctor 0x10000 2112 1032 1032 = Inl Transport_dataspace_too_small
   \<and> (\<exists>b. Packet_stream_base_ctor 0x10000 8192 1032 1032 = Inr b
          \<and> unat (bulk_buffer_offset b) = 2112
          \<and> unat (bulk_buffer_size b) = 6080)"
proof -
  have h: "unat (1032 :: size_t) + unat (1032 :: size_t) + 63 < 2 ^ 64" by simp
  from base_ctor_layout [OF h, of 2112 "0x10000"] base_ctor_layout [OF h, of 8192 "0x10000"] h
  show ?thesis by auto
qed

subsection \<open>Signed and unsigned readings\<close>

lemma sint_nonneg_uint:
  fixes w :: "64 word"
  assumes "0 \<le> sint w"
  shows "uint w = sint w"
proof -
  have "sint w < 2 ^ 63" using sint_lt [of w] by simp
  then have "sint w < 2 ^ 64" by simp
  with assms have "take_bit 64 (sint w) = sint w" by (rule take_bit_int_eq_self)
  then show ?thesis by (simp add: uint_sint [of w])
qed

lemma uint_small_sint:
  fixes w :: "64 word"
  assumes "uint w < 2 ^ 63"
  shows "sint w = uint w"
proof -
  have "sint w = signed_take_bit 63 (uint w)" by (simp add: sint_uint)
  also have "\<dots> = uint w"
    using assms by (intro signed_take_bit_int_eq_self) (simp_all add: order_trans [of _ 0])
  finally show ?thesis .
qed

lemma ctor_layout_ok:
  assumes "Packet_stream_base_ctor lb S sq aq = Inr b" and "uint S < 2 ^ 63"
  shows "layout_ok b"
proof -
  let ?bbo = "align_addr (sq + aq) 6"
  from assms(1) have lt: "?bbo < S" and o: "bulk_buffer_offset b = ?bbo"
    and z: "bulk_buffer_size b = S - ?bbo"
    by (auto simp: Packet_stream_base_ctor_def Let_def split: if_splits)
  have u: "uint ?bbo < uint S" using lt by (simp add: word_less_def)
  then have s: "sint ?bbo = uint ?bbo" using assms(2) by (intro uint_small_sint) simp
  have "?bbo \<le> S" using lt by simp
  then have d: "uint (S - ?bbo) = uint S - uint ?bbo" by (simp add: uint_minus_simple_alt)
  show ?thesis unfolding layout_ok_def o z s d using assms(2) by simp
qed

lemma layout_end:
  assumes "layout_ok b"
  shows "uint (bulk_buffer_offset b + bulk_buffer_size b)
           = sint (bulk_buffer_offset b) + uint (bulk_buffer_size b)"
    and "sint (bulk_buffer_offset b + bulk_buffer_size b)
           = sint (bulk_buffer_offset b) + uint (bulk_buffer_size b)"
proof -
  have o: "uint (bulk_buffer_offset b) = sint (bulk_buffer_offset b)"
    using assms by (simp add: layout_ok_def sint_nonneg_uint)
  have lt: "uint (bulk_buffer_offset b) + uint (bulk_buffer_size b) < 2 ^ 63"
    using assms unfolding o by (simp add: layout_ok_def)
  then have "uint (bulk_buffer_offset b) + uint (bulk_buffer_size b) < 2 ^ 64" by simp
  then have u: "uint (bulk_buffer_offset b + bulk_buffer_size b)
      = uint (bulk_buffer_offset b) + uint (bulk_buffer_size b)"
    by (simp add: uint_add_lem [THEN iffD1])
  show "uint (bulk_buffer_offset b + bulk_buffer_size b)
           = sint (bulk_buffer_offset b) + uint (bulk_buffer_size b)"
    using u o by simp
  show "sint (bulk_buffer_offset b + bulk_buffer_size b)
           = sint (bulk_buffer_offset b) + uint (bulk_buffer_size b)"
    using uint_small_sint [of "bulk_buffer_offset b + bulk_buffer_size b"] u lt o by simp
qed

lemma size_nonzero:
  fixes n :: "64 word"
  assumes "n \<noteq> 0"
  shows "0 < uint n" "\<not> n < sizeof_char"
proof -
  show "0 < uint n" using assms by (simp add: word_greater_zero_iff [symmetric] word_less_def)
  then show "\<not> n < sizeof_char" by (simp add: sizeof_char_def word_less_def)
qed

subsection \<open>Validation of descriptors\<close>

text \<open>
  As long as \<open>offset + size\<close> does not wrap around at the word size, \<open>packet_valid\<close>
  decides containment in the bulk buffer, and \<open>packet_content\<close> throws exactly for the
  descriptors of nonzero size that are not contained.
\<close>

lemma packet_valid_no_wrap:
  assumes "layout_ok b" and "0 \<le> sint (offset p)"
    and "sint (offset p) + uint (size p) < 2 ^ 64"
  shows "packet_valid b p \<longleftrightarrow> size p = 0 \<or>
     (sint (bulk_buffer_offset b) \<le> sint (offset p)
      \<and> sint (offset p) < sint (bulk_buffer_offset b) + uint (bulk_buffer_size b)
      \<and> sint (offset p) + uint (size p)
          \<le> sint (bulk_buffer_offset b) + uint (bulk_buffer_size b))"
proof -
  have o: "uint (offset p) = sint (offset p)" using assms(2) by (rule sint_nonneg_uint)
  have "uint (offset p) + uint (size p) < 2 ^ 64" using assms(3) unfolding o .
  then have u: "uint (offset p + size p) = sint (offset p) + uint (size p)"
    unfolding o [symmetric] by (simp add: uint_add_lem [THEN iffD1])
  show ?thesis
    unfolding packet_valid_def word_le_def u layout_end [OF assms(1)] by auto
qed

lemma packet_content_contained:
  assumes "layout_ok b" and "size p \<noteq> 0" and "range_contained b p"
  shows "packet_content sizeof_char b p = Inr (ds_local_base b + offset p)"
proof -
  note c = assms(3) [unfolded range_contained_def]
  have nn: "0 \<le> sint (offset p)" using c assms(1) by (simp add: layout_ok_def)
  have "sint (offset p) + uint (size p) < 2 ^ 63"
    using c assms(1) by (simp add: layout_ok_def)
  then have nw: "sint (offset p) + uint (size p) < 2 ^ 64" by simp
  have "packet_valid b p"
    unfolding packet_valid_no_wrap [OF assms(1) nn nw]
    using c size_nonzero(1) [OF assms(2)] by simp
  then show ?thesis
    using assms(2) size_nonzero(2) [OF assms(2)] by (simp add: packet_content_def)
qed

lemma packet_content_outside:
  assumes "layout_ok b" and "size p \<noteq> 0" and "\<not> range_contained b p"
    and "sint (offset p) + uint (size p) < 2 ^ 64"
  shows "packet_content sizeof_char b p = Inl Invalid_packet"
proof -
  have "\<not> packet_valid b p"
  proof (cases "0 \<le> sint (offset p)")
    case True
    show ?thesis
      unfolding packet_valid_no_wrap [OF assms(1) True assms(4)]
      using assms(2,3) by (simp add: range_contained_def)
  next
    case False
    then have "sint (offset p) < sint (bulk_buffer_offset b)"
      using assms(1) by (simp add: layout_ok_def)
    then show ?thesis using assms(2) by (simp add: packet_valid_def)
  qed
  then show ?thesis using assms(2) by (simp add: packet_content_def)
qed

text \<open>
  Claim C3. A descriptor of nonzero size whose byte range is not contained in the bulk
  buffer makes \<open>packet_content\<close> throw \<open>Invalid_packet\<close>; one whose range is contained
  gets a pointer. The second half is \<open>packet_content_contained\<close>. The first half fails
  where the unsigned sum \<open>offset + size\<close> wraps around: in the layout of the default
  policy over a dataspace of 8192 bytes, the descriptor with offset 2113 and size
  \<open>2 ^ 64 - 1\<close> passes all three comparisons of \<open>packet_valid\<close>, since
  \<open>2113 + (2 ^ 64 - 1)\<close> is 2112 in the machine word, and \<open>packet_content\<close> returns a
  pointer although the range reaches far beyond the bulk buffer.
\<close>

theorem packet_content_wraparound:
  "Packet_stream_base_ctor 0x10000 8192 1032 1032
     = Inr \<lparr>ds_local_base = 0x10000, ds_size = 8192, submit_queue_offset = 0,
             ack_queue_offset = 1032, bulk_buffer_offset = 2112, bulk_buffer_size = 6080\<rparr>
   \<and> size \<lparr>offset = 2113, size = 0xFFFFFFFFFFFFFFFF\<rparr> \<noteq> 0
   \<and> \<not> range_contained
         \<lparr>ds_local_base = 0x10000, ds_size = 8192, submit_queue_offset = 0,
            ack_queue_offset = 1032, bulk_buffer_offset = 2112, bulk_buffer_size = 6080\<rparr>
         \<lparr>offset = 2113, size = 0xFFFFFFFFFFFFFFFF\<rparr>
   \<and> packet_content sizeof_char
         \<lparr>ds_local_base = 0x10000, ds_size = 8192, submit_queue_offset = 0,
            ack_queue_offset = 1032, bulk_buffer_offset = 2112, bulk_buffer_size = 6080\<rparr>
         \<lparr>offset = 2113, size = 0xFFFFFFFFFFFFFFFF\<rparr> = Inr 0x10841"
proof -
  have a: "Packet_stream_base_ctor 0x10000 8192 1032 1032
     = Inr \<lparr>ds_local_base = 0x10000, ds_size = 8192, submit_queue_offset = 0,
             ack_queue_offset = 1032, bulk_buffer_offset = 2112, bulk_buffer_size = 6080\<rparr>"
    by (simp add: Packet_stream_base_ctor_def align_addr_def Let_def)
  have b: "\<not> range_contained
         \<lparr>ds_local_base = 0x10000, ds_size = 8192, submit_queue_offset = 0,
            ack_queue_offset = 1032, bulk_buffer_offset = 2112, bulk_buffer_size = 6080\<rparr>
         \<lparr>offset = 2113, size = 0xFFFFFFFFFFFFFFFF\<rparr>"
    by (simp add: range_contained_def)
  have c: "packet_content sizeof_char
         \<lparr>ds_local_base = 0x10000, ds_size = 8192, submit_queue_offset = 0,
            ack_queue_offset = 1032, bulk_buffer_offset = 2112, bulk_buffer_size = 6080\<rparr>
         \<lparr>offset = 2113, size = 0xFFFFFFFFFFFFFFFF\<rparr> = Inr 0x10841"
    by (simp add: packet_content_def packet_valid_def sizeof_char_def)
  from a b c show ?thesis by simp
qed

theorem packet_content_wraparound_witness:
  "packet_content sizeof_char
     \<lparr>ds_local_base = 0x10000, ds_size = 8192, submit_queue_offset = 0,
        ack_queue_offset = 1032, bulk_buffer_offset = 2112, bulk_buffer_size = 6080\<rparr>
     \<lparr>offset = 2113, size = 0xFFFFFFFFFFFFFFFF\<rparr> \<noteq> Inl Invalid_packet"
  using packet_content_wraparound by simp

text \<open>
  Claim C10. For every descriptor of size 0, \<open>packet_content\<close> returns the null
  pointer and does not throw, whatever the offset, the layout and the content type.
\<close>

theorem packet_content_zero_size:
  assumes "size p = 0"
  shows "packet_content content_size b p = Inr 0"
  using assms by (simp add: packet_content_def)

theorem packet_content_zero_size_witness:
  "size \<lparr>offset = 0x7FFFFFFFFFFFFFFF, size = 0\<rparr> = 0
   \<and> \<not> range_contained
         \<lparr>ds_local_base = 0x10000, ds_size = 8192, submit_queue_offset = 0,
            ack_queue_offset = 1032, bulk_buffer_offset = 2112, bulk_buffer_size = 6080\<rparr>
         \<lparr>offset = 0x7FFFFFFFFFFFFFFF, size = 0\<rparr>
   \<and> packet_content sizeof_char
         \<lparr>ds_local_base = 0x10000, ds_size = 8192, submit_queue_offset = 0,
            ack_queue_offset = 1032, bulk_buffer_offset = 2112, bulk_buffer_size = 6080\<rparr>
         \<lparr>offset = 0x7FFFFFFFFFFFFFFF, size = 0\<rparr> = Inr 0"
proof -
  have z: "size \<lparr>offset = 0x7FFFFFFFFFFFFFFF, size = 0\<rparr> = 0" by simp
  have n: "\<not> range_contained
         \<lparr>ds_local_base = 0x10000, ds_size = 8192, submit_queue_offset = 0,
            ack_queue_offset = 1032, bulk_buffer_offset = 2112, bulk_buffer_size = 6080\<rparr>
         \<lparr>offset = 0x7FFFFFFFFFFFFFFF, size = 0\<rparr>"
    by (simp add: range_contained_def)
  from packet_content_zero_size [OF z] z n show ?thesis by blast
qed

section \<open>Packet allocation\<close>

subsection \<open>The allocator\<close>

lemma range_free_in_range:
  assumes "range_free a b n" "0 < n"
  shows "b \<in> set [range_base a ..< range_base a + range_size a]"
  using assms by (simp add: range_free_def)

lemma alloc_aligned_None:
  assumes "0 < n"
  shows "fst (alloc_aligned a n al) = None \<longleftrightarrow> \<not> (\<exists>b. 2 ^ al dvd b \<and> range_free a b n)"
proof -
  let ?P = "\<lambda>b. 2 ^ al dvd b \<and> range_free a b n"
  let ?xs = "[range_base a ..< range_base a + range_size a]"
  have "fst (alloc_aligned a n al) = None \<longleftrightarrow> find ?P ?xs = None"
    by (simp add: alloc_aligned_def split: option.splits)
  also have "\<dots> \<longleftrightarrow> \<not> (\<exists>b \<in> set ?xs. ?P b)" unfolding find_None_iff by blast
  also have "\<dots> \<longleftrightarrow> \<not> (\<exists>b. ?P b)"
    using range_free_in_range [OF _ assms] by blast
  finally show ?thesis .
qed

lemma alloc_aligned_Some:
  assumes "alloc_aligned a n al = (Some b, a')"
  shows "2 ^ al dvd b" "range_free a b n" "a' = a\<lparr>blocks := (b, n) # blocks a\<rparr>"
proof -
  from assms have f: "find (\<lambda>b. 2 ^ al dvd b \<and> range_free a b n)
      [range_base a ..< range_base a + range_size a] = Some b"
    and a': "a' = a\<lparr>blocks := (b, n) # blocks a\<rparr>"
    by (auto simp: alloc_aligned_def split: option.splits)
  from f show "2 ^ al dvd b" "range_free a b n" by (auto simp: find_Some_iff)
  from a' show "a' = a\<lparr>blocks := (b, n) # blocks a\<rparr>" .
qed

lemma alloc_aligned_cases:
  "(\<exists>a'. alloc_aligned a n al = (None, a')) \<or> (\<exists>b a'. alloc_aligned a n al = (Some b, a'))"
  by (cases "alloc_aligned a n al") (metis option.exhaust)

lemma size_pos:
  fixes sz :: "64 word"
  assumes "sz \<noteq> 0"
  shows "0 < unat sz"
  using assms by (simp add: unat_gt_0)

subsection \<open>alloc_packet and release_packet\<close>

lemma alloc_packet_failed:
  assumes "sz \<noteq> 0"
  shows "fst (alloc_packet a sz al) = Inl Packet_alloc_failed
     \<longleftrightarrow> \<not> (\<exists>b. 2 ^ al dvd b \<and> range_free a b (unat sz))"
proof -
  have "fst (alloc_packet a sz al) = Inl Packet_alloc_failed
      \<longleftrightarrow> fst (alloc_aligned a (unat sz) al) = None"
    using assms by (auto simp: alloc_packet_def split: prod.splits option.splits)
  then show ?thesis using alloc_aligned_None [OF size_pos [OF assms]] by simp
qed

lemma alloc_packet_Inr:
  assumes "sz \<noteq> 0" and "range_base a + range_size a \<le> 2 ^ 64"
    and "alloc_packet a sz al = (Inr d, a')"
  shows "size d = sz" "2 ^ al dvd unat (offset d)" "range_free a (unat (offset d)) (unat sz)"
    "a' = a\<lparr>blocks := (unat (offset d), unat sz) # blocks a\<rparr>"
proof -
  from assms(1,3) obtain b where al: "alloc_aligned a (unat sz) al = (Some b, a')"
    and d: "d = \<lparr>offset = word_of_nat b, size = sz\<rparr>"
    by (auto simp: alloc_packet_def split: prod.splits option.splits)
  note s = alloc_aligned_Some [OF al]
  have "b < range_base a + range_size a"
    using s(2) size_pos [OF assms(1)] by (simp add: range_free_def)
  with assms(2) have "b < 2 ^ 64" by simp
  then have u: "unat (offset d) = b" unfolding d by (simp add: unat_of_nat take_bit_nat_eq_self)
  show "size d = sz" unfolding d by simp
  show "2 ^ al dvd unat (offset d)" "range_free a (unat (offset d)) (unat sz)"
    "a' = a\<lparr>blocks := (unat (offset d), unat sz) # blocks a\<rparr>"
    unfolding u using s by simp_all
qed

lemma owned_alloc:
  assumes "owned a0 a d" and "range_base a0 + range_size a0 \<le> 2 ^ 64" and "sz \<noteq> 0"
    and "alloc_packet a sz al = (Inr d2, a2)"
  shows "disjoint d d2 \<and> owned a0 a2 d"
proof -
  have r: "range_base a + range_size a \<le> 2 ^ 64" using assms(1,2) by (simp add: owned_def)
  note i = alloc_packet_Inr [OF assms(3) r assms(4)]
  have "(unat (offset d), unat (size d)) \<in> set (blocks a)"
    using assms(1) by (simp add: owned_def allocated_def)
  with i(3) have "unat (offset d2) + unat sz \<le> unat (offset d)
      \<or> unat (offset d) + unat (size d) \<le> unat (offset d2)"
    by (auto simp: range_free_def list_all_iff)
  then have "disjoint d d2" unfolding disjoint_def i(1) by blast
  moreover have "owned a0 a2 d" using assms(1) unfolding i(4) by (simp add: owned_def allocated_def)
  ultimately show ?thesis ..
qed

lemma owned_release:
  assumes "owned a0 a d" and "offset d' \<noteq> offset d"
  shows "owned a0 (release_packet a d') d"
proof -
  have "unat (offset d') \<noteq> unat (offset d)" using assms(2) by (simp add: word_unat_eq_iff)
  then show ?thesis
    using assms(1) by (auto simp: owned_def allocated_def release_packet_def free_def)
qed

text \<open>
  Claim C8. For a requested size greater than 0, \<open>alloc_packet\<close> throws
  \<open>Packet_alloc_failed\<close> exactly when the allocator has no free range of that size at
  the requested alignment. On success the descriptor carries the requested size and the
  start of the range the allocator assigned, which was free and is aligned. From then
  on, in every allocator state in which that range is still handed out, a successful
  allocation yields a range that does not meet it and leaves it handed out, and so does
  the release of a descriptor with another offset; releasing the descriptor itself makes
  the range free again.
\<close>

theorem alloc_packet_range:
  assumes "sz \<noteq> 0" and "range_base a + range_size a \<le> 2 ^ 64"
  shows "(fst (alloc_packet a sz al) = Inl Packet_alloc_failed
            \<longleftrightarrow> \<not> (\<exists>b. 2 ^ al dvd b \<and> range_free a b (unat sz)))
     \<and> (\<forall>d a'. alloc_packet a sz al = (Inr d, a') \<longrightarrow>
            size d = sz \<and> 2 ^ al dvd unat (offset d)
            \<and> range_free a (unat (offset d)) (unat (size d))
            \<and> owned a a' d
            \<and> (\<forall>a''. owned a a'' d \<longrightarrow>
                  (\<forall>sz2 al2 d2 a2. sz2 \<noteq> 0 \<and> alloc_packet a'' sz2 al2 = (Inr d2, a2)
                       \<longrightarrow> disjoint d d2 \<and> owned a a2 d)
                  \<and> (\<forall>d'. offset d' \<noteq> offset d \<longrightarrow> owned a (release_packet a'' d') d))
            \<and> \<not> allocated (release_packet a' d) d
            \<and> range_free (release_packet a' d) (unat (offset d)) (unat (size d)))"
proof -
  have one: "fst (alloc_packet a sz al) = Inl Packet_alloc_failed
            \<longleftrightarrow> \<not> (\<exists>b. 2 ^ al dvd b \<and> range_free a b (unat sz))"
    using alloc_packet_failed [OF assms(1)] .
  have two: "size d = sz \<and> 2 ^ al dvd unat (offset d)
            \<and> range_free a (unat (offset d)) (unat (size d))
            \<and> owned a a' d
            \<and> (\<forall>a''. owned a a'' d \<longrightarrow>
                  (\<forall>sz2 al2 d2 a2. sz2 \<noteq> 0 \<and> alloc_packet a'' sz2 al2 = (Inr d2, a2)
                       \<longrightarrow> disjoint d d2 \<and> owned a a2 d)
                  \<and> (\<forall>d'. offset d' \<noteq> offset d \<longrightarrow> owned a (release_packet a'' d') d))
            \<and> \<not> allocated (release_packet a' d) d
            \<and> range_free (release_packet a' d) (unat (offset d)) (unat (size d))"
    if ok: "alloc_packet a sz al = (Inr d, a')" for d a'
  proof -
    note i = alloc_packet_Inr [OF assms ok]
    have f: "range_free a (unat (offset d)) (unat (size d))" using i(1,3) by simp
    have o: "owned a a' d" unfolding i(4) using i(1) by (simp add: owned_def allocated_def)
    have later: "(\<forall>sz2 al2 d2 a2. sz2 \<noteq> 0 \<and> alloc_packet a'' sz2 al2 = (Inr d2, a2)
                       \<longrightarrow> disjoint d d2 \<and> owned a a2 d)
                  \<and> (\<forall>d'. offset d' \<noteq> offset d \<longrightarrow> owned a (release_packet a'' d') d)"
      if "owned a a'' d" for a''
      using owned_alloc [OF that assms(2)] owned_release [OF that] by blast
    have sd: "size d \<noteq> 0" using i(1) assms(1) by simp
    have bl: "blocks (release_packet a' d)
        = filter (\<lambda>(b', n'). b' \<noteq> unat (offset d)) (blocks a)"
      unfolding i(4) using sd by (simp add: release_packet_def free_def)
    have na: "\<not> allocated (release_packet a' d) d" unfolding allocated_def bl by simp
    have rf: "range_free (release_packet a' d) (unat (offset d)) (unat (size d))"
      using f sd unfolding range_free_def bl i(4)
      by (simp add: release_packet_def free_def list_all_iff)
    from i(1,2) f o later na rf show ?thesis by blast
  qed
  from one two show ?thesis by blast
qed

theorem alloc_packet_range_witness:
  "(16 :: size_t) \<noteq> 0
   \<and> range_base \<lparr>range_base = 64, range_size = 32, blocks = []\<rparr>
       + range_size \<lparr>range_base = 64, range_size = 32, blocks = []\<rparr> \<le> 2 ^ 64
   \<and> alloc_packet \<lparr>range_base = 64, range_size = 32, blocks = []\<rparr> 16 4
       = (Inr \<lparr>offset = 64, size = 16\<rparr>, \<lparr>range_base = 64, range_size = 32, blocks = [(64, 16)]\<rparr>)
   \<and> alloc_packet \<lparr>range_base = 64, range_size = 32, blocks = [(64, 16)]\<rparr> 16 4
       = (Inr \<lparr>offset = 80, size = 16\<rparr>,
          \<lparr>range_base = 64, range_size = 32, blocks = [(80, 16), (64, 16)]\<rparr>)
   \<and> disjoint \<lparr>offset = 64, size = 16\<rparr> \<lparr>offset = 80, size = 16\<rparr>
   \<and> owned \<lparr>range_base = 64, range_size = 32, blocks = []\<rparr>
         \<lparr>range_base = 64, range_size = 32, blocks = [(80, 16), (64, 16)]\<rparr>
         \<lparr>offset = 64, size = 16\<rparr>
   \<and> fst (alloc_packet \<lparr>range_base = 64, range_size = 32, blocks = [(80, 16), (64, 16)]\<rparr> 16 4)
       = Inl Packet_alloc_failed
   \<and> \<not> (\<exists>b. 2 ^ 4 dvd b
          \<and> range_free \<lparr>range_base = 64, range_size = 32, blocks = [(80, 16), (64, 16)]\<rparr> b
                (unat (16 :: size_t)))"
proof -
  let ?a0 = "\<lparr>range_base = 64, range_size = 32, blocks = []\<rparr>"
  let ?a1 = "\<lparr>range_base = 64, range_size = 32, blocks = [(64, 16)]\<rparr>"
  let ?a2 = "\<lparr>range_base = 64, range_size = 32, blocks = [(80, 16), (64, 16)]\<rparr>"
  have nz: "(16 :: size_t) \<noteq> 0" by simp
  have r0: "range_base ?a0 + range_size ?a0 \<le> 2 ^ 64" by simp
  have r2: "range_base ?a2 + range_size ?a2 \<le> 2 ^ 64" by simp
  have e0: "alloc_packet ?a0 16 4 = (Inr \<lparr>offset = 64, size = 16\<rparr>, ?a1)" by code_simp
  have e1: "alloc_packet ?a1 16 4 = (Inr \<lparr>offset = 80, size = 16\<rparr>, ?a2)" by code_simp
  have e2: "fst (alloc_packet ?a2 16 4) = Inl Packet_alloc_failed" by code_simp
  note t0 = alloc_packet_range [OF nz r0, of 4]
  note t2 = alloc_packet_range [OF nz r2, of 4]
  from t0 have "\<forall>d a'. alloc_packet ?a0 16 4 = (Inr d, a') \<longrightarrow>
            size d = 16 \<and> 2 ^ 4 dvd unat (offset d)
            \<and> range_free ?a0 (unat (offset d)) (unat (size d))
            \<and> owned ?a0 a' d
            \<and> (\<forall>a''. owned ?a0 a'' d \<longrightarrow>
                  (\<forall>sz2 al2 d2 a2. sz2 \<noteq> 0 \<and> alloc_packet a'' sz2 al2 = (Inr d2, a2)
                       \<longrightarrow> disjoint d d2 \<and> owned ?a0 a2 d)
                  \<and> (\<forall>d'. offset d' \<noteq> offset d \<longrightarrow> owned ?a0 (release_packet a'' d') d))
            \<and> \<not> allocated (release_packet a' d) d
            \<and> range_free (release_packet a' d) (unat (offset d)) (unat (size d))"
    by (rule conjunct2)
  from this [rule_format, OF e0]
  have o1: "owned ?a0 ?a1 \<lparr>offset = 64, size = 16\<rparr>"
    and l: "\<forall>a''. owned ?a0 a'' \<lparr>offset = 64, size = 16\<rparr> \<longrightarrow>
                  (\<forall>sz2 al2 d2 a2. sz2 \<noteq> 0 \<and> alloc_packet a'' sz2 al2 = (Inr d2, a2)
                       \<longrightarrow> disjoint \<lparr>offset = 64, size = 16\<rparr> d2
                           \<and> owned ?a0 a2 \<lparr>offset = 64, size = 16\<rparr>)
                  \<and> (\<forall>d'. offset d' \<noteq> offset \<lparr>offset = 64, size = 16\<rparr>
                        \<longrightarrow> owned ?a0 (release_packet a'' d') \<lparr>offset = 64, size = 16\<rparr>)"
    by simp_all
  from l [rule_format, OF o1] have
    "\<forall>sz2 al2 d2 a2. sz2 \<noteq> 0 \<and> alloc_packet ?a1 sz2 al2 = (Inr d2, a2)
        \<longrightarrow> disjoint \<lparr>offset = 64, size = 16\<rparr> d2 \<and> owned ?a0 a2 \<lparr>offset = 64, size = 16\<rparr>"
    by (rule conjunct1)
  from this [rule_format, OF conjI [OF nz e1]]
  have "disjoint \<lparr>offset = 64, size = 16\<rparr> \<lparr>offset = 80, size = 16\<rparr>
      \<and> owned ?a0 ?a2 \<lparr>offset = 64, size = 16\<rparr>" .
  moreover from t2 have "fst (alloc_packet ?a2 16 4) = Inl Packet_alloc_failed
      \<longleftrightarrow> \<not> (\<exists>b. 2 ^ 4 dvd b \<and> range_free ?a2 b (unat (16 :: size_t)))"
    by (rule conjunct1)
  with e2 have "\<not> (\<exists>b. 2 ^ 4 dvd b \<and> range_free ?a2 b (unat (16 :: size_t)))" by simp
  ultimately show ?thesis using nz r0 e0 e1 e2 by simp
qed

text \<open>
  Claim C9. \<open>alloc_packet\<close> with size 0 does not fail and does not consult the
  allocator: whatever the allocator state, it returns the descriptor with offset 0 and
  size 0 and leaves the state as it was. \<open>release_packet\<close> of a descriptor of size 0
  leaves the allocator state as it was.
\<close>

theorem alloc_packet_zero_size:
  "alloc_packet a 0 al = (Inr \<lparr>offset = 0, size = 0\<rparr>, a)
   \<and> (size d = 0 \<longrightarrow> release_packet a d = a)"
  by (simp add: alloc_packet_def release_packet_def)

theorem alloc_packet_zero_size_witness:
  "alloc_packet \<lparr>range_base = 64, range_size = 32, blocks = [(80, 16), (64, 16)]\<rparr> 0 4
     = (Inr \<lparr>offset = 0, size = 0\<rparr>,
        \<lparr>range_base = 64, range_size = 32, blocks = [(80, 16), (64, 16)]\<rparr>)
   \<and> size \<lparr>offset = 64, size = 0\<rparr> = 0
   \<and> release_packet \<lparr>range_base = 64, range_size = 32, blocks = [(80, 16), (64, 16)]\<rparr>
         \<lparr>offset = 64, size = 0\<rparr>
       = \<lparr>range_base = 64, range_size = 32, blocks = [(80, 16), (64, 16)]\<rparr>"
  using alloc_packet_zero_size
    [of "\<lparr>range_base = 64, range_size = 32, blocks = [(80, 16), (64, 16)]\<rparr>" 4
        "\<lparr>offset = 64, size = 0\<rparr>"]
  by simp

end
